theory Spec2Isabelle
  imports Main "HOL-Library.Word"
begin

unbundle bit_operations_syntax

section \<open>Data model\<close>

text \<open>
  The repository holds two copies of an AES-128 implementation: package \<open>aes\<close> (the block
  cipher behind \<open>cipher.Block\<close>) and package \<open>matasano\<close> (the challenge solutions). Both
  keep the 16-byte state as four \<open>uint32\<close> words, word \<open>r\<close> holding row \<open>r\<close> of the
  4x4 byte matrix, most significant byte first. A run-time panic of Go is a value of type
  \<open>panic\<close>.

  A Go slice has a length and a capacity, and a slice expression \<open>s[lo:hi]\<close> is bounded
  by the capacity, not by the length. A slice that a caller supplies (the buffers \<open>dst\<close>
  and \<open>src\<close> of \<open>Encrypt\<close> and \<open>Decrypt\<close>) is a value of type \<open>goslice\<close>: its elements
  \<open>vis\<close>, and the elements \<open>spare\<close> of its backing array that lie beyond its length and
  within its capacity. A slice that the code makes itself with \<open>make([]T, n)\<close> (the state,
  the expanded key) has no spare capacity and is a list.
\<close>

type_synonym byte = "8 word"
type_synonym uint32 = "32 word"

datatype panic = IndexOutOfRange | SliceBoundsOutOfRange | MakeSliceOutOfRange

definition bindp :: "panic + 'a \<Rightarrow> ('a \<Rightarrow> panic + 'b) \<Rightarrow> panic + 'b" where
  "bindp m f = (case m of Inl e \<Rightarrow> Inl e | Inr v \<Rightarrow> f v)"

record 'a goslice =
  vis :: "'a list"
  spare :: "'a list"

text \<open>The backing array of a slice, from its first element up to its capacity.\<close>

definition backing :: "'a goslice \<Rightarrow> 'a list" where
  "backing s = vis s @ spare s"

text \<open>\<open>s[lo:hi]\<close>: Go checks \<open>0 \<le> lo \<le> hi \<le> cap(s)\<close>; the result has length \<open>hi - lo\<close>
  and keeps the rest of the backing array as its spare capacity.\<close>

definition reslice :: "'a goslice \<Rightarrow> int \<Rightarrow> int \<Rightarrow> panic + 'a goslice" where
  "reslice s lo hi =
     (if 0 \<le> lo \<and> lo \<le> hi \<and> hi \<le> int (length (backing s))
      then Inr \<lparr>vis = take (nat (hi - lo)) (drop (nat lo) (backing s)),
                spare = drop (nat hi) (backing s)\<rparr>
      else Inl SliceBoundsOutOfRange)"

text \<open>\<open>xs[lo:hi]\<close> on a slice made by \<open>make([]T, n)\<close>, whose capacity is its length
  (\<open>expkey\<close> and \<open>expkeys\<close>, made by \<open>keyExpansion\<close>): the same rule, with no spare
  capacity. The sub-slice is only indexed and ranged over, so its elements are kept.\<close>

definition subslice :: "'a list \<Rightarrow> int \<Rightarrow> int \<Rightarrow> panic + 'a list" where
  "subslice xs lo hi = bindp (reslice \<lparr>vis = xs, spare = []\<rparr> lo hi) (\<lambda>s. Inr (vis s))"

text \<open>The slice \<open>s\<close> after the first elements of its backing array are overwritten with
  \<open>xs\<close> (a write through a sub-slice \<open>s[0:n]\<close>): its length and capacity stay.\<close>

definition store_front :: "'a goslice \<Rightarrow> 'a list \<Rightarrow> 'a goslice" where
  "store_front s xs =
     \<lparr>vis = take (length (vis s)) (xs @ drop (length xs) (backing s)),
      spare = drop (length (vis s)) (xs @ drop (length xs) (backing s))\<rparr>"

text \<open>\<open>xs[i] = f(xs[i])\<close>.\<close>

definition modify :: "'a list \<Rightarrow> nat \<Rightarrow> ('a \<Rightarrow> 'a) \<Rightarrow> panic + 'a list" where
  "modify xs i f = (if i < length xs then Inr (xs[i := f (xs ! i)]) else Inl IndexOutOfRange)"

text \<open>A counted loop \<open>for i := a; i < b; i++\<close> whose body may panic, over the list of
  the values that \<open>i\<close> takes.\<close>

fun for_range :: "nat list \<Rightarrow> (nat \<Rightarrow> 'a \<Rightarrow> panic + 'a) \<Rightarrow> 'a \<Rightarrow> panic + 'a" where
  "for_range [] body s = Inr s"
| "for_range (i # is) body s = bindp (body i s) (for_range is body)"

section \<open>Field tables\<close>

text \<open>
  The tables \<open>sbox0\<close>, \<open>sbox1\<close>, \<open>powx\<close> and \<open>gMulBy2\<close> ... \<open>gMulBy14\<close> are declared in
  a file of the repository that is not among the sources. The spec (4.1) fixes their
  contents: the AES substitution box and its inverse, the powers of \<open>x\<close> in GF(2^8), and
  the products of every byte with the constants 2, 3, 9, 11, 13 and 14 in GF(2^8) modulo
  \<open>x^8 + x^4 + x^3 + x + 1\<close>.
\<close>

text \<open>Modelled from the spec: \<open>sbox0\<close>, missing from the sources, is the forward
  substitution table, the AES S-box of FIPS 197.\<close>

definition sbox0 :: "byte list" where
  "sbox0 = [
    0x63, 0x7c, 0x77, 0x7b, 0xf2, 0x6b, 0x6f, 0xc5, 0x30, 0x01, 0x67, 0x2b, 0xfe, 0xd7, 0xab, 0x76,
    0xca, 0x82, 0xc9, 0x7d, 0xfa, 0x59, 0x47, 0xf0, 0xad, 0xd4, 0xa2, 0xaf, 0x9c, 0xa4, 0x72, 0xc0,
    0xb7, 0xfd, 0x93, 0x26, 0x36, 0x3f, 0xf7, 0xcc, 0x34, 0xa5, 0xe5, 0xf1, 0x71, 0xd8, 0x31, 0x15,
    0x04, 0xc7, 0x23, 0xc3, 0x18, 0x96, 0x05, 0x9a, 0x07, 0x12, 0x80, 0xe2, 0xeb, 0x27, 0xb2, 0x75,
    0x09, 0x83, 0x2c, 0x1a, 0x1b, 0x6e, 0x5a, 0xa0, 0x52, 0x3b, 0xd6, 0xb3, 0x29, 0xe3, 0x2f, 0x84,
    0x53, 0xd1, 0x00, 0xed, 0x20, 0xfc, 0xb1, 0x5b, 0x6a, 0xcb, 0xbe, 0x39, 0x4a, 0x4c, 0x58, 0xcf,
    0xd0, 0xef, 0xaa, 0xfb, 0x43, 0x4d, 0x33, 0x85, 0x45, 0xf9, 0x02, 0x7f, 0x50, 0x3c, 0x9f, 0xa8,
    0x51, 0xa3, 0x40, 0x8f, 0x92, 0x9d, 0x38, 0xf5, 0xbc, 0xb6, 0xda, 0x21, 0x10, 0xff, 0xf3, 0xd2,
    0xcd, 0x0c, 0x13, 0xec, 0x5f, 0x97, 0x44, 0x17, 0xc4, 0xa7, 0x7e, 0x3d, 0x64, 0x5d, 0x19, 0x73,
    0x60, 0x81, 0x4f, 0xdc, 0x22, 0x2a, 0x90, 0x88, 0x46, 0xee, 0xb8, 0x14, 0xde, 0x5e, 0x0b, 0xdb,
    0xe0, 0x32, 0x3a, 0x0a, 0x49, 0x06, 0x24, 0x5c, 0xc2, 0xd3, 0xac, 0x62, 0x91, 0x95, 0xe4, 0x79,
    0xe7, 0xc8, 0x37, 0x6d, 0x8d, 0xd5, 0x4e, 0xa9, 0x6c, 0x56, 0xf4, 0xea, 0x65, 0x7a, 0xae, 0x08,
    0xba, 0x78, 0x25, 0x2e, 0x1c, 0xa6, 0xb4, 0xc6, 0xe8, 0xdd, 0x74, 0x1f, 0x4b, 0xbd, 0x8b, 0x8a,
    0x70, 0x3e, 0xb5, 0x66, 0x48, 0x03, 0xf6, 0x0e, 0x61, 0x35, 0x57, 0xb9, 0x86, 0xc1, 0x1d, 0x9e,
    0xe1, 0xf8, 0x98, 0x11, 0x69, 0xd9, 0x8e, 0x94, 0x9b, 0x1e, 0x87, 0xe9, 0xce, 0x55, 0x28, 0xdf,
    0x8c, 0xa1, 0x89, 0x0d, 0xbf, 0xe6, 0x42, 0x68, 0x41, 0x99, 0x2d, 0x0f, 0xb0, 0x54, 0xbb, 0x16]"

text \<open>Modelled from the spec: \<open>sbox1\<close>, missing from the sources, is the inverse
  substitution table.\<close>

definition sbox1 :: "byte list" where
  "sbox1 = [
    0x52, 0x09, 0x6a, 0xd5, 0x30, 0x36, 0xa5, 0x38, 0xbf, 0x40, 0xa3, 0x9e, 0x81, 0xf3, 0xd7, 0xfb,
    0x7c, 0xe3, 0x39, 0x82, 0x9b, 0x2f, 0xff, 0x87, 0x34, 0x8e, 0x43, 0x44, 0xc4, 0xde, 0xe9, 0xcb,
    0x54, 0x7b, 0x94, 0x32, 0xa6, 0xc2, 0x23, 0x3d, 0xee, 0x4c, 0x95, 0x0b, 0x42, 0xfa, 0xc3, 0x4e,
    0x08, 0x2e, 0xa1, 0x66, 0x28, 0xd9, 0x24, 0xb2, 0x76, 0x5b, 0xa2, 0x49, 0x6d, 0x8b, 0xd1, 0x25,
    0x72, 0xf8, 0xf6, 0x64, 0x86, 0x68, 0x98, 0x16, 0xd4, 0xa4, 0x5c, 0xcc, 0x5d, 0x65, 0xb6, 0x92,
    0x6c, 0x70, 0x48, 0x50, 0xfd, 0xed, 0xb9, 0xda, 0x5e, 0x15, 0x46, 0x57, 0xa7, 0x8d, 0x9d, 0x84,
    0x90, 0xd8, 0xab, 0x00, 0x8c, 0xbc, 0xd3, 0x0a, 0xf7, 0xe4, 0x58, 0x05, 0xb8, 0xb3, 0x45, 0x06,
    0xd0, 0x2c, 0x1e, 0x8f, 0xca, 0x3f, 0x0f, 0x02, 0xc1, 0xaf, 0xbd, 0x03, 0x01, 0x13, 0x8a, 0x6b,
    0x3a, 0x91, 0x11, 0x41, 0x4f, 0x67, 0xdc, 0xea, 0x97, 0xf2, 0xcf, 0xce, 0xf0, 0xb4, 0xe6, 0x73,
    0x96, 0xac, 0x74, 0x22, 0xe7, 0xad, 0x35, 0x85, 0xe2, 0xf9, 0x37, 0xe8, 0x1c, 0x75, 0xdf, 0x6e,
    0x47, 0xf1, 0x1a, 0x71, 0x1d, 0x29, 0xc5, 0x89, 0x6f, 0xb7, 0x62, 0x0e, 0xaa, 0x18, 0xbe, 0x1b,
    0xfc, 0x56, 0x3e, 0x4b, 0xc6, 0xd2, 0x79, 0x20, 0x9a, 0xdb, 0xc0, 0xfe, 0x78, 0xcd, 0x5a, 0xf4,
    0x1f, 0xdd, 0xa8, 0x33, 0x88, 0x07, 0xc7, 0x31, 0xb1, 0x12, 0x10, 0x59, 0x27, 0x80, 0xec, 0x5f,
    0x60, 0x51, 0x7f, 0xa9, 0x19, 0xb5, 0x4a, 0x0d, 0x2d, 0xe5, 0x7a, 0x9f, 0x93, 0xc9, 0x9c, 0xef,
    0xa0, 0xe0, 0x3b, 0x4d, 0xae, 0x2a, 0xf5, 0xb0, 0xc8, 0xeb, 0xbb, 0x3c, 0x83, 0x53, 0x99, 0x61,
    0x17, 0x2b, 0x04, 0x7e, 0xba, 0x77, 0xd6, 0x26, 0xe1, 0x69, 0x14, 0x63, 0x55, 0x21, 0x0c, 0x7d]"

text \<open>Modelled from the spec: \<open>powx\<close>, missing from the sources, is the table of the
  powers of \<open>x\<close> in GF(2^8), from which the round constants are taken.\<close>

definition powx :: "byte list" where
  "powx = [0x01, 0x02, 0x04, 0x08, 0x10, 0x20, 0x40, 0x80,
           0x1b, 0x36, 0x6c, 0xd8, 0xab, 0x4d, 0x9a, 0x2f]"

text \<open>Modelled from the spec: the tables \<open>gMulBy2\<close> ... \<open>gMulBy14\<close>, missing from the
  sources, hold at index \<open>a\<close> the product of the byte \<open>a\<close> with the constant in GF(2^8).
  \<open>xtime\<close> is the multiplication by \<open>x\<close>, and \<open>gf_mul c\<close> the multiplication by a
  constant \<open>c\<close> read as a polynomial over GF(2): \<open>c * a = c0 * a + x * ((c div 2) * a)\<close>.\<close>

definition xtime :: "byte \<Rightarrow> byte" where
  "xtime a = push_bit 1 a XOR (if bit a 7 then 0x1b else 0)"

fun gf_mul :: "nat \<Rightarrow> byte \<Rightarrow> byte" where
  "gf_mul c a =
     (if c = 0 then 0 else (if odd c then a else 0) XOR xtime (gf_mul (c div 2) a))"

declare gf_mul.simps [simp del]

definition gf_table :: "nat \<Rightarrow> byte list" where
  "gf_table c = map (\<lambda>i. gf_mul c (of_nat i)) [0..<256]"

definition gMulBy2 :: "byte list" where "gMulBy2 = gf_table 2"
definition gMulBy3 :: "byte list" where "gMulBy3 = gf_table 3"
definition gMulBy9 :: "byte list" where "gMulBy9 = gf_table 9"
definition gMulBy11 :: "byte list" where "gMulBy11 = gf_table 11"
definition gMulBy13 :: "byte list" where "gMulBy13 = gf_table 13"
definition gMulBy14 :: "byte list" where "gMulBy14 = gf_table 14"

section \<open>Word operations\<close>

text \<open>
  \<open>rcon\<close>, \<open>rotWordLeft\<close>, \<open>rotWordRight\<close>, \<open>subWord\<close> and \<open>invSubWord\<close> are the same text
  in both packages. The rotation count is a Go \<open>uint\<close> (64 bits), so \<open>32 - 8*n\<close> wraps;
  a shift by 32 or more gives 0, as \<open>drop_bit\<close> and \<open>push_bit\<close> do. A table index is a
  byte value, below the 256 entries of the table; \<open>rcon\<close> is called with 0..9 only.
\<close>

definition rcon :: "nat \<Rightarrow> uint32" where
  "rcon i = push_bit 24 (ucast (powx ! i))"

definition rotWordLeft :: "uint32 \<Rightarrow> 64 word \<Rightarrow> uint32" where
  "rotWordLeft input n = drop_bit (unat (32 - 8 * n)) input OR push_bit (unat (8 * n)) input"

definition rotWordRight :: "uint32 \<Rightarrow> 64 word \<Rightarrow> uint32" where
  "rotWordRight input n = push_bit (unat (32 - 8 * n)) input OR drop_bit (unat (8 * n)) input"

definition subWord :: "uint32 \<Rightarrow> uint32" where
  "subWord input =
     push_bit 24 (ucast (sbox0 ! unat (drop_bit 24 input))) OR
     push_bit 16 (ucast (sbox0 ! unat (drop_bit 16 input AND 0xff))) OR
     push_bit 8 (ucast (sbox0 ! unat (drop_bit 8 input AND 0xff))) OR
     ucast (sbox0 ! unat (input AND 0xff))"

definition invSubWord :: "uint32 \<Rightarrow> uint32" where
  "invSubWord input =
     push_bit 24 (ucast (sbox1 ! unat (drop_bit 24 input))) OR
     push_bit 16 (ucast (sbox1 ! unat (drop_bit 16 input AND 0xff))) OR
     push_bit 8 (ucast (sbox1 ! unat (drop_bit 8 input AND 0xff))) OR
     ucast (sbox1 ! unat (input AND 0xff))"

section \<open>Round transforms\<close>

text \<open>\<open>shiftRows\<close>, \<open>subBytes\<close>, \<open>mixColumns\<close>, their inverses and \<open>manipulateColumns\<close>
  are the same text in both packages. They update the state in place; the model returns
  the new state, or the panic of an index beyond the slice.\<close>

definition invShiftRows :: "uint32 list \<Rightarrow> panic + uint32 list" where
  "invShiftRows state =
     for_range [1, 2, 3] (\<lambda>i st. modify st i (\<lambda>w. rotWordRight w (of_nat i))) state"

definition shiftRows :: "uint32 list \<Rightarrow> panic + uint32 list" where
  "shiftRows state =
     for_range [1, 2, 3] (\<lambda>i st. modify st i (\<lambda>w. rotWordLeft w (of_nat i))) state"

text \<open>\<open>for i := range state { state[i] = f(state[i]) }\<close> cannot leave the slice.\<close>

definition invSubBytes :: "uint32 list \<Rightarrow> uint32 list" where
  "invSubBytes state = map invSubWord state"

definition subBytes :: "uint32 list \<Rightarrow> uint32 list" where
  "subBytes state = map subWord state"

text \<open>Package \<open>aes\<close>: \<open>state[i] ^ key[i]\<close> for every index of the state.\<close>

definition addRoundKey :: "uint32 list \<Rightarrow> uint32 list \<Rightarrow> panic + uint32 list" where
  "addRoundKey state key =
     (if length key < length state then Inl IndexOutOfRange
      else Inr (map (\<lambda>(s, k). s XOR k) (zip state key)))"

text \<open>Package \<open>matasano\<close>: column \<open>i\<close> of the round key is gathered into one word and
  XORed into \<open>state[i]\<close>.\<close>

definition matasano_addRoundKey_step :: "uint32 list \<Rightarrow> nat \<Rightarrow> uint32 list \<Rightarrow> panic + uint32 list" where
  "matasano_addRoundKey_step key i st =
     (if length key < 4 then Inl IndexOutOfRange
      else let a0 = drop_bit ((3 - i) * 8) (key ! 0) AND 0xff;
               a1 = drop_bit ((3 - i) * 8) (key ! 1) AND 0xff;
               a2 = drop_bit ((3 - i) * 8) (key ! 2) AND 0xff;
               a3 = drop_bit ((3 - i) * 8) (key ! 3) AND 0xff;
               k = push_bit 24 a0 OR push_bit 16 a1 OR push_bit 8 a2 OR a3
           in modify st i (\<lambda>w. w XOR k))"

definition matasano_addRoundKey :: "uint32 list \<Rightarrow> uint32 list \<Rightarrow> panic + uint32 list" where
  "matasano_addRoundKey state key =
     for_range [0, 1, 2, 3] (matasano_addRoundKey_step key) state"

type_synonym column_calc = "byte \<Rightarrow> byte \<Rightarrow> byte \<Rightarrow> byte \<Rightarrow> byte \<times> byte \<times> byte \<times> byte"

definition manipulateColumns_step :: "column_calc \<Rightarrow> nat \<Rightarrow> uint32 list \<Rightarrow> panic + uint32 list" where
  "manipulateColumns_step calc i st =
     (if length st < 4 then Inl IndexOutOfRange
      else let a0 = (ucast (drop_bit ((3 - i) * 8) (st ! 0) AND 0xff) :: byte);
               a1 = (ucast (drop_bit ((3 - i) * 8) (st ! 1) AND 0xff) :: byte);
               a2 = (ucast (drop_bit ((3 - i) * 8) (st ! 2) AND 0xff) :: byte);
               a3 = (ucast (drop_bit ((3 - i) * 8) (st ! 3) AND 0xff) :: byte);
               (r0, r1, r2, r3) = calc a0 a1 a2 a3;
               mask = NOT (push_bit ((3 - i) * 8) (0xff :: uint32))
           in Inr (st[0 := (st ! 0 AND mask) OR push_bit ((3 - i) * 8) (ucast r0),
                      1 := (st ! 1 AND mask) OR push_bit ((3 - i) * 8) (ucast r1),
                      2 := (st ! 2 AND mask) OR push_bit ((3 - i) * 8) (ucast r2),
                      3 := (st ! 3 AND mask) OR push_bit ((3 - i) * 8) (ucast r3)]))"

definition manipulateColumns :: "uint32 list \<Rightarrow> column_calc \<Rightarrow> panic + uint32 list" where
  "manipulateColumns state calc = for_range [0, 1, 2, 3] (manipulateColumns_step calc) state"

definition calcInvMixCols :: column_calc where
  "calcInvMixCols a0 a1 a2 a3 =
     (gMulBy14 ! unat a0 XOR gMulBy11 ! unat a1 XOR gMulBy13 ! unat a2 XOR gMulBy9 ! unat a3,
      gMulBy9 ! unat a0 XOR gMulBy14 ! unat a1 XOR gMulBy11 ! unat a2 XOR gMulBy13 ! unat a3,
      gMulBy13 ! unat a0 XOR gMulBy9 ! unat a1 XOR gMulBy14 ! unat a2 XOR gMulBy11 ! unat a3,
      gMulBy11 ! unat a0 XOR gMulBy13 ! unat a1 XOR gMulBy9 ! unat a2 XOR gMulBy14 ! unat a3)"

definition invMixColumns :: "uint32 list \<Rightarrow> panic + uint32 list" where
  "invMixColumns state = manipulateColumns state calcInvMixCols"

definition calcMixCols :: column_calc where
  "calcMixCols a0 a1 a2 a3 =
     (gMulBy2 ! unat a0 XOR gMulBy3 ! unat a1 XOR a2 XOR a3,
      a0 XOR gMulBy2 ! unat a1 XOR gMulBy3 ! unat a2 XOR a3,
      a0 XOR a1 XOR gMulBy2 ! unat a2 XOR gMulBy3 ! unat a3,
      gMulBy3 ! unat a0 XOR a1 XOR a2 XOR gMulBy2 ! unat a3)"

definition mixColumns :: "uint32 list \<Rightarrow> panic + uint32 list" where
  "mixColumns state = manipulateColumns state calcMixCols"

section \<open>Block encryption and decryption\<close>

text \<open>
  \<open>encrypt\<close> and \<open>decrypt\<close> have the same text in both packages, but each calls the
  \<open>addRoundKey\<close> of its own package. The loop runs \<open>rounds = len(expkey)/4 - 2\<close> times
  (no time when that is negative), carrying the state and the key index \<open>keyi\<close>.
\<close>

fun encrypt_loop :: "nat \<Rightarrow> uint32 list \<Rightarrow> int \<Rightarrow> uint32 list \<Rightarrow> panic + (uint32 list \<times> int)" where
  "encrypt_loop 0 state keyi expkey = Inr (state, keyi)"
| "encrypt_loop (Suc n) state keyi expkey =
     bindp (shiftRows (subBytes state)) (\<lambda>st.
     bindp (mixColumns st) (\<lambda>st.
     bindp (subslice expkey keyi (keyi + 4)) (\<lambda>k.
     bindp (addRoundKey st k) (\<lambda>st.
     encrypt_loop n st (keyi + 4) expkey))))"

definition encrypt :: "uint32 list \<Rightarrow> uint32 list \<Rightarrow> panic + uint32 list" where
  "encrypt state expkey =
     bindp (subslice expkey 0 4) (\<lambda>k.
     bindp (addRoundKey state k) (\<lambda>st.
     bindp (encrypt_loop (nat (int (length expkey) div 4 - 2)) st 4 expkey) (\<lambda>(st, keyi).
     bindp (shiftRows (subBytes st)) (\<lambda>st.
     bindp (subslice expkey keyi (keyi + 4)) (\<lambda>k.
     addRoundKey st k)))))"

fun decrypt_loop :: "nat \<Rightarrow> uint32 list \<Rightarrow> int \<Rightarrow> uint32 list \<Rightarrow> panic + (uint32 list \<times> int)" where
  "decrypt_loop 0 state keyi expkey = Inr (state, keyi)"
| "decrypt_loop (Suc n) state keyi expkey =
     bindp (invShiftRows state) (\<lambda>st.
     bindp (subslice expkey keyi (keyi + 4)) (\<lambda>k.
     bindp (addRoundKey (invSubBytes st) k) (\<lambda>st.
     bindp (invMixColumns st) (\<lambda>st.
     decrypt_loop n st (keyi - 4) expkey))))"

definition decrypt :: "uint32 list \<Rightarrow> uint32 list \<Rightarrow> panic + uint32 list" where
  "decrypt state expkey =
     (let keyi = int (length expkey) - 4 in
      bindp (subslice expkey keyi (keyi + 4)) (\<lambda>k.
      bindp (addRoundKey state k) (\<lambda>st.
      bindp (decrypt_loop (nat (int (length expkey) div 4 - 2)) st (keyi - 4) expkey) (\<lambda>(st, keyi).
      bindp (invShiftRows st) (\<lambda>st.
      bindp (subslice expkey keyi (keyi + 4)) (\<lambda>k.
      addRoundKey (invSubBytes st) k))))))"

fun matasano_encrypt_loop :: "nat \<Rightarrow> uint32 list \<Rightarrow> int \<Rightarrow> uint32 list \<Rightarrow> panic + (uint32 list \<times> int)" where
  "matasano_encrypt_loop 0 state keyi expkey = Inr (state, keyi)"
| "matasano_encrypt_loop (Suc n) state keyi expkey =
     bindp (shiftRows (subBytes state)) (\<lambda>st.
     bindp (mixColumns st) (\<lambda>st.
     bindp (subslice expkey keyi (keyi + 4)) (\<lambda>k.
     bindp (matasano_addRoundKey st k) (\<lambda>st.
     matasano_encrypt_loop n st (keyi + 4) expkey))))"

definition matasano_encrypt :: "uint32 list \<Rightarrow> uint32 list \<Rightarrow> panic + uint32 list" where
  "matasano_encrypt state expkey =
     bindp (subslice expkey 0 4) (\<lambda>k.
     bindp (matasano_addRoundKey state k) (\<lambda>st.
     bindp (matasano_encrypt_loop (nat (int (length expkey) div 4 - 2)) st 4 expkey) (\<lambda>(st, keyi).
     bindp (shiftRows (subBytes st)) (\<lambda>st.
     bindp (subslice expkey keyi (keyi + 4)) (\<lambda>k.
     matasano_addRoundKey st k)))))"

fun matasano_decrypt_loop :: "nat \<Rightarrow> uint32 list \<Rightarrow> int \<Rightarrow> uint32 list \<Rightarrow> panic + (uint32 list \<times> int)" where
  "matasano_decrypt_loop 0 state keyi expkey = Inr (state, keyi)"
| "matasano_decrypt_loop (Suc n) state keyi expkey =
     bindp (invShiftRows state) (\<lambda>st.
     bindp (subslice expkey keyi (keyi + 4)) (\<lambda>k.
     bindp (matasano_addRoundKey (invSubBytes st) k) (\<lambda>st.
     bindp (invMixColumns st) (\<lambda>st.
     matasano_decrypt_loop n st (keyi - 4) expkey))))"

definition matasano_decrypt :: "uint32 list \<Rightarrow> uint32 list \<Rightarrow> panic + uint32 list" where
  "matasano_decrypt state expkey =
     (let keyi = int (length expkey) - 4 in
      bindp (subslice expkey keyi (keyi + 4)) (\<lambda>k.
      bindp (matasano_addRoundKey state k) (\<lambda>st.
      bindp (matasano_decrypt_loop (nat (int (length expkey) div 4 - 2)) st (keyi - 4) expkey) (\<lambda>(st, keyi).
      bindp (invShiftRows st) (\<lambda>st.
      bindp (subslice expkey keyi (keyi + 4)) (\<lambda>k.
      matasano_addRoundKey (invSubBytes st) k))))))"

section \<open>Key expansion\<close>

text \<open>
  Both packages fill \<open>expkeys\<close>, a fresh slice of \<open>4*(rounds+1) = 44\<close> words, in two
  loops. The first reads the key bytes and panics on a key that is too short; the second
  only touches \<open>expkeys\<close> at indices \<open>i-4 .. i+3\<close> with \<open>4 \<le> i \<le> 40\<close>, inside the slice.
  Package \<open>aes\<close> then transposes every group of four words in place.
\<close>

function key_load :: "byte list \<Rightarrow> nat \<Rightarrow> uint32 list \<Rightarrow> panic + uint32 list" where
  "key_load key i expkeys =
     (if i < 4 then
        (if i * 4 + 3 < length key
         then key_load key (i + 1)
                (expkeys[i := push_bit 24 (ucast (key ! (i * 4))) OR
                               push_bit 16 (ucast (key ! (i * 4 + 1))) OR
                               push_bit 8 (ucast (key ! (i * 4 + 2))) OR
                               ucast (key ! (i * 4 + 3))])
         else Inl IndexOutOfRange)
      else Inr expkeys)"
  by pat_completeness auto
termination
  by (relation "measure (\<lambda>(key, i, expkeys). 4 - i)") auto

declare key_load.simps [simp del]

definition key_round :: "nat \<Rightarrow> uint32 list \<Rightarrow> uint32 list" where
  "key_round i expkeys =
     (let e = expkeys[i := expkeys ! (i - 1)];
          e = e[i := rotWordLeft (e ! i) 1];
          e = e[i := subWord (e ! i)];
          e = e[i := e ! i XOR rcon (i div 4 - 1)];
          e = e[i := e ! i XOR e ! (i - 4)];
          e = e[i + 1 := e ! (i + 1 - 1) XOR e ! (i + 1 - 4)];
          e = e[i + 2 := e ! (i + 2 - 1) XOR e ! (i + 2 - 4)];
          e = e[i + 3 := e ! (i + 3 - 1) XOR e ! (i + 3 - 4)]
      in e)"

function key_rounds :: "nat \<Rightarrow> uint32 list \<Rightarrow> uint32 list" where
  "key_rounds i expkeys = (if i < 44 then key_rounds (i + 4) (key_round i expkeys) else expkeys)"
  by pat_completeness auto
termination
  by (relation "measure (\<lambda>(i, expkeys). 44 - i)") auto

declare key_rounds.simps [simp del]

definition matasano_keyExpansion :: "byte list \<Rightarrow> panic + uint32 list" where
  "matasano_keyExpansion key =
     bindp (key_load key 0 (replicate 44 0)) (\<lambda>expkeys. Inr (key_rounds 4 expkeys))"

definition transpose_step ::
  "uint32 list \<Rightarrow> nat \<Rightarrow> uint32 \<times> uint32 \<times> uint32 \<times> uint32 \<Rightarrow>
     panic + (uint32 \<times> uint32 \<times> uint32 \<times> uint32)" where
  "transpose_step input i cs =
     (case cs of (c0, c1, c2, c3) \<Rightarrow>
        if i < length input
        then Inr (c0 OR push_bit (8 * (3 - i)) (drop_bit 24 (input ! i)),
                  c1 OR push_bit (8 * (3 - i)) (drop_bit 16 (input ! i) AND 0xff),
                  c2 OR push_bit (8 * (3 - i)) (drop_bit 8 (input ! i) AND 0xff),
                  c3 OR push_bit (8 * (3 - i)) (input ! i AND 0xff))
        else Inl IndexOutOfRange)"

definition transposeW :: "uint32 list \<Rightarrow> panic + uint32 list" where
  "transposeW input =
     bindp (for_range [0, 1, 2, 3] (transpose_step input) (0, 0, 0, 0)) (\<lambda>(c0, c1, c2, c3).
     Inr (input[0 := c0, 1 := c1, 2 := c2, 3 := c3]))"

text \<open>\<open>transpose(expkeys[j : j+4])\<close> writes through the sub-slice into \<open>expkeys\<close>.\<close>

function transpose_groups :: "nat \<Rightarrow> uint32 list \<Rightarrow> panic + uint32 list" where
  "transpose_groups j expkeys =
     (if j < length expkeys then
        (case subslice expkeys (int j) (int j + 4) of
           Inl e \<Rightarrow> Inl e
         | Inr g \<Rightarrow>
            (case transposeW g of
               Inl e \<Rightarrow> Inl e
             | Inr t \<Rightarrow>
                transpose_groups (j + 4)
                  (expkeys[j := t ! 0, j + 1 := t ! 1, j + 2 := t ! 2, j + 3 := t ! 3])))
      else Inr expkeys)"
  by pat_completeness auto
termination
  by (relation "measure (\<lambda>(j, expkeys). length expkeys - j)") auto

declare transpose_groups.simps [simp del]

definition keyExpansion :: "byte list \<Rightarrow> panic + uint32 list" where
  "keyExpansion key =
     bindp (key_load key 0 (replicate 44 0)) (\<lambda>expkeys.
     transpose_groups 0 (key_rounds 4 expkeys))"

section \<open>The cipher object\<close>

text \<open>Four bytes as one word, most significant byte first, and byte \<open>c\<close> of a word.\<close>

definition word_of_bytes :: "byte \<Rightarrow> byte \<Rightarrow> byte \<Rightarrow> byte \<Rightarrow> uint32" where
  "word_of_bytes b0 b1 b2 b3 =
     push_bit 24 (ucast b0) OR push_bit 16 (ucast b1) OR push_bit 8 (ucast b2) OR ucast b3"

definition byte_at :: "uint32 \<Rightarrow> nat \<Rightarrow> byte" where
  "byte_at w c = ucast (drop_bit ((3 - c) * 8) w)"

text \<open>
  Modelled from the spec: \<open>pack\<close> is defined in a file of package \<open>aes\<close> that is not among
  the sources. The spec (3) fixes the layout: the byte at row \<open>r\<close> and column \<open>c\<close> of the
  state is byte \<open>r + 4c\<close> of the block, and word \<open>r\<close> of the state is row \<open>r\<close>.
  \<open>DecryptAES\<close> of package \<open>matasano\<close> packs the same way.
\<close>

definition pack :: "uint32 list \<Rightarrow> byte list \<Rightarrow> uint32 list" where
  "pack state src =
     state[0 := word_of_bytes (src ! 0) (src ! 4) (src ! 8) (src ! 12),
           1 := word_of_bytes (src ! 1) (src ! 5) (src ! 9) (src ! 13),
           2 := word_of_bytes (src ! 2) (src ! 6) (src ! 10) (src ! 14),
           3 := word_of_bytes (src ! 3) (src ! 7) (src ! 11) (src ! 15)]"

text \<open>Modelled from the spec: \<open>unpack\<close>, missing from the sources like \<open>pack\<close>, writes
  the state back in the same layout.\<close>

definition unpack :: "byte list \<Rightarrow> uint32 list \<Rightarrow> byte list" where
  "unpack dst state =
     dst[0 := byte_at (state ! 0) 0, 1 := byte_at (state ! 1) 0,
         2 := byte_at (state ! 2) 0, 3 := byte_at (state ! 3) 0,
         4 := byte_at (state ! 0) 1, 5 := byte_at (state ! 1) 1,
         6 := byte_at (state ! 2) 1, 7 := byte_at (state ! 3) 1,
         8 := byte_at (state ! 0) 2, 9 := byte_at (state ! 1) 2,
         10 := byte_at (state ! 2) 2, 11 := byte_at (state ! 3) 2,
         12 := byte_at (state ! 0) 3, 13 := byte_at (state ! 1) 3,
         14 := byte_at (state ! 2) 3, 15 := byte_at (state ! 3) 3]"

record cipherAES =
  expkey :: "uint32 list"

definition NewCipher :: "byte list \<Rightarrow> panic + cipherAES" where
  "NewCipher key = bindp (keyExpansion key) (\<lambda>ek. Inr \<lparr>expkey = ek\<rparr>)"

text \<open>\<open>Encrypt(dst, src)\<close> and \<open>Decrypt(dst, src)\<close> return the slice \<open>dst\<close> after the
  call: the first 16 bytes of its backing array are overwritten through the sub-slice
  \<open>dst[0:BlockSize]\<close>. Both slice expressions are bounded by the capacity of the buffer,
  so a buffer shorter than 16 bytes with spare capacity is read, or written, beyond its
  length. \<open>src\<close> is read before \<open>dst\<close> is written, so the result is the same when the two
  share memory.\<close>

definition Encrypt :: "cipherAES \<Rightarrow> byte goslice \<Rightarrow> byte goslice \<Rightarrow> panic + byte goslice" where
  "Encrypt a dst src =
     bindp (reslice src 0 16) (\<lambda>src16.
     bindp (encrypt (pack (replicate 4 0) (vis src16)) (expkey a)) (\<lambda>state.
     bindp (reslice dst 0 16) (\<lambda>dst16.
     Inr (store_front dst (unpack (vis dst16) state)))))"

definition Decrypt :: "cipherAES \<Rightarrow> byte goslice \<Rightarrow> byte goslice \<Rightarrow> panic + byte goslice" where
  "Decrypt a dst src =
     bindp (reslice src 0 16) (\<lambda>src16.
     bindp (decrypt (pack (replicate 4 0) (vis src16)) (expkey a)) (\<lambda>state.
     bindp (reslice dst 0 16) (\<lambda>dst16.
     Inr (store_front dst (unpack (vis dst16) state)))))"

section \<open>The mode-detection oracle\<close>

text \<open>
  Modelled from the spec: \<open>similarBlocks\<close> is defined in a file of package \<open>matasano\<close>
  that is not among the sources. The spec (4.6) partitions the buffer into 16-byte blocks
  and asks whether any two blocks are byte-identical; \<open>isAESECB\<close> only tests the result
  for \<open>> 0\<close>, so the model counts the pairs of identical blocks. \<open>blocks16\<close> is the
  partition (it keeps a shorter last block when the length is not a multiple of 16),
  \<open>equal_pairs\<close> the number of pairs of equal entries of a list.
\<close>

fun blocks16 :: "byte list \<Rightarrow> byte list list" where
  "blocks16 b = (if b = [] then [] else take 16 b # blocks16 (drop 16 b))"

declare blocks16.simps [simp del]

fun equal_pairs :: "'a list \<Rightarrow> int" where
  "equal_pairs [] = 0"
| "equal_pairs (x # xs) = int (length (filter (\<lambda>y. y = x) xs)) + equal_pairs xs"

definition similarBlocks :: "byte list \<Rightarrow> int" where
  "similarBlocks s = equal_pairs (blocks16 s)"

definition isAESECB :: "byte list \<Rightarrow> bool" where
  "isAESECB b = (if similarBlocks b > 0 then True else False)"

text \<open>\<open>guesses\<close> starts as \<open>len(ciphers)\<close> zeros; the loop writes entry \<open>i\<close> for every
  index \<open>i\<close> of \<open>ciphers\<close>.\<close>

definition OracleAES :: "byte list list \<Rightarrow> int list" where
  "OracleAES ciphers =
     foldl (\<lambda>guesses i. guesses[i := (if isAESECB (ciphers ! i) then 1 else 0)])
       (replicate (length ciphers) 0) [0..<length ciphers]"

section \<open>The test-vector generator\<close>

text \<open>
  Modelled from the spec: \<open>PadPKCS7\<close> is defined in a file of package \<open>matasano\<close> that is
  not among the sources. The spec (6) calls it standard block padding: \<open>n\<close> bytes of
  value \<open>n\<close>, where \<open>n\<close> in \<open>1..blockSize\<close> brings the length to a multiple of \<open>blockSize\<close>.
\<close>

definition PadPKCS7 :: "byte list \<Rightarrow> nat \<Rightarrow> byte list" where
  "PadPKCS7 p blockSize =
     p @ replicate (blockSize - length p mod blockSize)
           (of_nat (blockSize - length p mod blockSize))"

text \<open>
  The randomness is made explicit: \<open>intn\<close> is the value that \<open>rand.Intn(16)\<close> returns and
  \<open>rnd\<close> the bytes that \<open>crand.Read\<close> delivers, in order. \<open>make\<close> panics on a negative
  length and on a length above the capacity.
\<close>

definition randbytes :: "(nat \<Rightarrow> byte) \<Rightarrow> int \<Rightarrow> panic + byte list" where
  "randbytes rnd n = (if n < 0 then Inl MakeSliceOutOfRange else Inr (map rnd [0..<nat n]))"

definition getPlaintext :: "int \<Rightarrow> (nat \<Rightarrow> byte) \<Rightarrow> byte list \<Rightarrow> panic + byte list" where
  "getPlaintext intn rnd b =
     bindp (randbytes rnd (intn + 5)) (\<lambda>prefix.
     if int (length prefix) > int (length b) + 20 then Inl MakeSliceOutOfRange
     else Inr (PadPKCS7 (prefix @ b) 16))"

section \<open>The spec's description of the key schedule and of the round sequence\<close>

text \<open>The key schedule of the spec (4.2), as a predicate on the key bytes and the 44
  words.\<close>

definition schedule_word :: "uint32 list \<Rightarrow> nat \<Rightarrow> uint32" where
  "schedule_word w i =
     (if i mod 4 = 0
      then subWord (rotWordLeft (w ! (i - 1)) 1) XOR rcon (i div 4 - 1) XOR w ! (i - 4)
      else w ! (i - 1) XOR w ! (i - 4))"

definition key_schedule_spec :: "byte list \<Rightarrow> uint32 list \<Rightarrow> bool" where
  "key_schedule_spec key w \<longleftrightarrow>
     length w = 44 \<and>
     (\<forall>i \<in> {0..<4}.
        w ! i = word_of_bytes (key ! (4 * i)) (key ! (4 * i + 1))
                  (key ! (4 * i + 2)) (key ! (4 * i + 3))) \<and>
     (\<forall>i \<in> {4..<44}. w ! i = schedule_word w i)"

text \<open>Round key \<open>i\<close> is the \<open>i\<close>-th group of four words; a group transposed is the
  4x4 byte matrix with rows and columns exchanged.\<close>

definition round_key :: "uint32 list \<Rightarrow> nat \<Rightarrow> uint32 list" where
  "round_key ek i = take 4 (drop (4 * i) ek)"

definition transposed :: "uint32 list \<Rightarrow> uint32 list" where
  "transposed k =
     [word_of_bytes (byte_at (k ! 0) 0) (byte_at (k ! 1) 0) (byte_at (k ! 2) 0) (byte_at (k ! 3) 0),
      word_of_bytes (byte_at (k ! 0) 1) (byte_at (k ! 1) 1) (byte_at (k ! 2) 1) (byte_at (k ! 3) 1),
      word_of_bytes (byte_at (k ! 0) 2) (byte_at (k ! 1) 2) (byte_at (k ! 2) 2) (byte_at (k ! 3) 2),
      word_of_bytes (byte_at (k ! 0) 3) (byte_at (k ! 1) 3) (byte_at (k ! 2) 3) (byte_at (k ! 3) 3)]"

text \<open>The round sequence of the spec (4.4), written out step by step.\<close>

definition spec_main_round :: "uint32 list \<Rightarrow> uint32 list \<Rightarrow> panic + uint32 list" where
  "spec_main_round rk s =
     bindp (shiftRows (subBytes s)) (\<lambda>s. bindp (mixColumns s) (\<lambda>s. addRoundKey s rk))"

definition spec_final_round :: "uint32 list \<Rightarrow> uint32 list \<Rightarrow> panic + uint32 list" where
  "spec_final_round rk s = bindp (shiftRows (subBytes s)) (\<lambda>s. addRoundKey s rk)"

definition spec_inv_main_round :: "uint32 list \<Rightarrow> uint32 list \<Rightarrow> panic + uint32 list" where
  "spec_inv_main_round rk s =
     bindp (invShiftRows s) (\<lambda>s. bindp (addRoundKey (invSubBytes s) rk) invMixColumns)"

definition spec_inv_final_round :: "uint32 list \<Rightarrow> uint32 list \<Rightarrow> panic + uint32 list" where
  "spec_inv_final_round rk s = bindp (invShiftRows s) (\<lambda>s. addRoundKey (invSubBytes s) rk)"

fun spec_rounds ::
  "(uint32 list \<Rightarrow> uint32 list \<Rightarrow> panic + uint32 list) \<Rightarrow> uint32 list \<Rightarrow> nat list \<Rightarrow>
     uint32 list \<Rightarrow> panic + uint32 list" where
  "spec_rounds round ek [] s = Inr s"
| "spec_rounds round ek (i # is) s =
     bindp (round (round_key ek i) s) (spec_rounds round ek is)"

definition spec_encrypt :: "uint32 list \<Rightarrow> uint32 list \<Rightarrow> panic + uint32 list" where
  "spec_encrypt s ek =
     bindp (addRoundKey s (round_key ek 0)) (\<lambda>s.
     bindp (spec_rounds spec_main_round ek [1, 2, 3, 4, 5, 6, 7, 8, 9] s)
       (spec_final_round (round_key ek 10)))"

definition spec_decrypt :: "uint32 list \<Rightarrow> uint32 list \<Rightarrow> panic + uint32 list" where
  "spec_decrypt s ek =
     bindp (addRoundKey s (round_key ek 10)) (\<lambda>s.
     bindp (spec_rounds spec_inv_main_round ek [9, 8, 7, 6, 5, 4, 3, 2, 1] s)
       (spec_inv_final_round (round_key ek 0)))"

section \<open>Auxiliary notions for the proofs\<close>

text \<open>Replacing byte \<open>i\<close> of a word, as \<open>manipulateColumns\<close> does with its mask.\<close>

definition set_byte :: "uint32 \<Rightarrow> nat \<Rightarrow> byte \<Rightarrow> uint32" where
  "set_byte w i r =
     (w AND NOT (push_bit ((3 - i) * 8) 0xff)) OR push_bit ((3 - i) * 8) (ucast r)"

section \<open>Basic facts: panics, lists of four words, bytes of a word\<close>

lemma bindp_Inr [simp]: "bindp (Inr v) f = f v"
  by (simp add: bindp_def)

lemma bindp_Inl [simp]: "bindp (Inl e) f = Inl e"
  by (simp add: bindp_def)

lemma subslice_eq:
  "subslice xs lo hi =
     (if 0 \<le> lo \<and> lo \<le> hi \<and> hi \<le> int (length xs)
      then Inr (take (nat (hi - lo)) (drop (nat lo) xs))
      else Inl SliceBoundsOutOfRange)"
  by (simp add: subslice_def reslice_def backing_def)

lemma length4_cases: "length s = 4 \<Longrightarrow> \<exists>a b c d. s = [a, b, c, d]"
  by (cases s; simp; rename_tac t; case_tac t; simp; rename_tac t; case_tac t; simp; rename_tac t; case_tac t; simp)

lemma ff_mask: "(0xff :: uint32) = mask 8"
  by (simp add: mask_eq_exp_minus_1)

lemma four_ranges: "(n::nat) < 8 \<or> (8 \<le> n \<and> n < 16) \<or> (16 \<le> n \<and> n < 24) \<or> 24 \<le> n"
  by arith

lemma byte_hi [simp]: "8 \<le> n \<Longrightarrow> \<not> bit (b :: byte) n"
  by (auto dest: bit_imp_le_length)

lemma byte_at_word_of_bytes [simp]:
  "byte_at (word_of_bytes b0 b1 b2 b3) 0 = b0"
  "byte_at (word_of_bytes b0 b1 b2 b3) (Suc 0) = b1"
  "byte_at (word_of_bytes b0 b1 b2 b3) 2 = b2"
  "byte_at (word_of_bytes b0 b1 b2 b3) 3 = b3"
  unfolding byte_at_def word_of_bytes_def
  by (rule bit_word_eqI; simp add: bit_simps)+

lemma word_of_bytes_byte_at:
  "word_of_bytes (byte_at w 0) (byte_at w (Suc 0)) (byte_at w 2) (byte_at w 3) = w"
  unfolding byte_at_def word_of_bytes_def
  by (rule bit_word_eqI; cut_tac n=n in four_ranges; elim disjE conjE; simp add: bit_simps; arith?)+

lemma word_bytes_exhaust: "\<exists>a b c d. w = word_of_bytes a b c d"
  using word_of_bytes_byte_at [of w, symmetric] by blast

lemma ucast_byte_roundtrip [simp]: "(ucast (ucast (a :: byte) :: uint32) :: byte) = a"
  by (rule bit_word_eqI; simp add: bit_simps)

lemma unat_ucast_byte [simp]: "unat (ucast (a :: byte) :: uint32) = unat a"
  by (rule bit_eqI; simp add: bit_simps; auto dest: bit_imp_le_length)

lemma rotWordLeft_bytes:
  "rotWordLeft (word_of_bytes a b c d) 1 = word_of_bytes b c d a"
  "rotWordLeft (word_of_bytes a b c d) 2 = word_of_bytes c d a b"
  "rotWordLeft (word_of_bytes a b c d) 3 = word_of_bytes d a b c"
  unfolding rotWordLeft_def word_of_bytes_def
  by (rule bit_word_eqI; cut_tac n=n in four_ranges; elim disjE conjE; simp add: bit_simps; arith?)+

lemma rotWordRight_bytes:
  "rotWordRight (word_of_bytes a b c d) 1 = word_of_bytes d a b c"
  "rotWordRight (word_of_bytes a b c d) 2 = word_of_bytes c d a b"
  "rotWordRight (word_of_bytes a b c d) 3 = word_of_bytes b c d a"
  unfolding rotWordRight_def word_of_bytes_def
  by (rule bit_word_eqI; cut_tac n=n in four_ranges; elim disjE conjE; simp add: bit_simps; arith?)+

lemma ucast_and_ff [simp]: "(ucast ((x :: uint32) AND 0xff) :: byte) = ucast x"
  unfolding ff_mask by (rule bit_word_eqI; simp add: bit_simps)

lemma and_ff_ucast: "(x :: uint32) AND 0xff = ucast (ucast x :: byte)"
  unfolding ff_mask by (rule bit_word_eqI; simp add: bit_simps; auto dest: bit_imp_le_length)

lemma drop_bit_24_ucast: "drop_bit 24 (w :: uint32) = ucast (ucast (drop_bit 24 w) :: byte)"
  by (rule bit_word_eqI; simp add: bit_simps; auto dest: bit_imp_le_length)

lemma byte_at_drop_bit [simp]:
  "byte_at (drop_bit 24 w) 3 = byte_at w 0"
  "byte_at (drop_bit 16 w) 3 = byte_at w (Suc 0)"
  "byte_at (drop_bit 8 w) 3 = byte_at w 2"
  by (simp_all add: byte_at_def)

lemma byte_extract:
  "drop_bit 24 w = ucast (byte_at w 0)"
  "x AND 0xff = ucast (byte_at x 3)"
  unfolding byte_at_def
  using drop_bit_24_ucast [of w] and_ff_ucast [of x]
  by simp_all

lemma subWord_bytes:
  "subWord w = word_of_bytes (sbox0 ! unat (byte_at w 0)) (sbox0 ! unat (byte_at w 1))
                 (sbox0 ! unat (byte_at w 2)) (sbox0 ! unat (byte_at w 3))"
  by (simp add: subWord_def word_of_bytes_def byte_extract)

lemma invSubWord_bytes:
  "invSubWord w = word_of_bytes (sbox1 ! unat (byte_at w 0)) (sbox1 ! unat (byte_at w 1))
                 (sbox1 ! unat (byte_at w 2)) (sbox1 ! unat (byte_at w 3))"
  by (simp add: invSubWord_def word_of_bytes_def byte_extract)

lemma sbox_tables_inverse: "map (\<lambda>x. sbox1 ! unat x) sbox0 = map of_nat [0..<256]"
  unfolding sbox0_def sbox1_def
  by (simp add: upt_rec)

lemma length_sbox0: "length sbox0 = 256"
  by (simp add: sbox0_def)

lemma unat_byte_less: "unat (b :: byte) < 256"
  using unsigned_less [of b, where 'a = nat] by simp

lemma sbox1_sbox0 [simp]: "sbox1 ! unat (sbox0 ! unat b) = b"
proof -
  have "map (\<lambda>x. sbox1 ! unat x) sbox0 ! unat b = map of_nat [0..<256] ! unat b"
    by (simp only: sbox_tables_inverse)
  then show ?thesis
    by (simp add: length_sbox0 unat_byte_less)
qed

lemma invSubWord_subWord [simp]: "invSubWord (subWord w) = w"
  by (simp add: invSubWord_bytes subWord_bytes word_of_bytes_byte_at)

lemma set_byte_bytes [simp]:
  "set_byte (word_of_bytes a b c d) 0 r = word_of_bytes r b c d"
  "set_byte (word_of_bytes a b c d) (Suc 0) r = word_of_bytes a r c d"
  "set_byte (word_of_bytes a b c d) 2 r = word_of_bytes a b r d"
  "set_byte (word_of_bytes a b c d) 3 r = word_of_bytes a b c r"
  unfolding set_byte_def word_of_bytes_def ff_mask
  by (rule bit_word_eqI; cut_tac n=n in four_ranges; elim disjE conjE; simp add: bit_simps; arith?)+

lemma manipulateColumns_step_bytes:
  "manipulateColumns_step calc i [w0, w1, w2, w3] =
     (case calc (byte_at w0 i) (byte_at w1 i) (byte_at w2 i) (byte_at w3 i) of
        (r0, r1, r2, r3) \<Rightarrow>
          Inr [set_byte w0 i r0, set_byte w1 i r1, set_byte w2 i r2, set_byte w3 i r3])"
  by (simp add: manipulateColumns_step_def set_byte_def byte_at_def Let_def split: prod.splits)


lemma state_bytes_exhaust:
  assumes "length s = 4"
  shows "\<exists>a0 a1 a2 a3 b0 b1 b2 b3 c0 c1 c2 c3 d0 d1 d2 d3.
           s = [word_of_bytes a0 a1 a2 a3, word_of_bytes b0 b1 b2 b3,
                word_of_bytes c0 c1 c2 c3, word_of_bytes d0 d1 d2 d3]"
proof -
  obtain w0 w1 w2 w3 where s: "s = [w0, w1, w2, w3]"
    using length4_cases [OF assms] by blast
  show ?thesis
    unfolding s
    using word_bytes_exhaust [of w0] word_bytes_exhaust [of w1]
      word_bytes_exhaust [of w2] word_bytes_exhaust [of w3]
    by blast
qed

lemma manipulateColumns_bytes:
  "manipulateColumns [word_of_bytes a0 a1 a2 a3, word_of_bytes b0 b1 b2 b3,
                      word_of_bytes c0 c1 c2 c3, word_of_bytes d0 d1 d2 d3] calc =
     Inr [word_of_bytes (fst (calc a0 b0 c0 d0)) (fst (calc a1 b1 c1 d1))
            (fst (calc a2 b2 c2 d2)) (fst (calc a3 b3 c3 d3)),
          word_of_bytes (fst (snd (calc a0 b0 c0 d0))) (fst (snd (calc a1 b1 c1 d1)))
            (fst (snd (calc a2 b2 c2 d2))) (fst (snd (calc a3 b3 c3 d3))),
          word_of_bytes (fst (snd (snd (calc a0 b0 c0 d0)))) (fst (snd (snd (calc a1 b1 c1 d1))))
            (fst (snd (snd (calc a2 b2 c2 d2)))) (fst (snd (snd (calc a3 b3 c3 d3)))),
          word_of_bytes (snd (snd (snd (calc a0 b0 c0 d0)))) (snd (snd (snd (calc a1 b1 c1 d1))))
            (snd (snd (snd (calc a2 b2 c2 d2)))) (snd (snd (snd (calc a3 b3 c3 d3))))]"
  by (simp add: manipulateColumns_def manipulateColumns_step_bytes split: prod.splits)

lemma gf_table_nth: "gf_table c ! unat a = gf_mul c a"
  by (simp add: gf_table_def unat_byte_less)

lemma xtime_0 [simp]: "xtime 0 = 0"
  by (simp add: xtime_def)

lemma gf_mul_0 [simp]: "gf_mul 0 a = 0"
  by (simp add: gf_mul.simps)

lemma gf_mul_1 [simp]: "gf_mul (Suc 0) a = a"
  by (simp add: gf_mul.simps [of "Suc 0"])

lemma gf_mul_numeral [simp]:
  "gf_mul (numeral k) a =
     (if odd (numeral k :: nat) then a else 0) XOR xtime (gf_mul (numeral k div 2) a)"
  by (simp add: gf_mul.simps [of "numeral k"])

lemma xtime_xor: "xtime (a XOR b) = xtime a XOR xtime b"
  by (simp add: xtime_def bit_xor_iff ac_simps)

lemma xor_cancel_left [simp]: "(a :: byte) XOR (a XOR b) = b"
  by (simp add: xor.assoc [symmetric])

lemma calc_inverse:
  "(case calcMixCols a0 a1 a2 a3 of (r0, r1, r2, r3) \<Rightarrow> calcInvMixCols r0 r1 r2 r3) =
     (a0, a1, a2, a3)"
  by (simp add: calcMixCols_def calcInvMixCols_def gMulBy2_def gMulBy3_def gMulBy9_def
      gMulBy11_def gMulBy13_def gMulBy14_def gf_table_nth xtime_xor ac_simps)


lemma calc_inverse_proj:
  "calcInvMixCols (fst (calcMixCols a0 a1 a2 a3)) (fst (snd (calcMixCols a0 a1 a2 a3)))
     (fst (snd (snd (calcMixCols a0 a1 a2 a3)))) (snd (snd (snd (calcMixCols a0 a1 a2 a3)))) =
     (a0, a1, a2, a3)"
  using calc_inverse [of a0 a1 a2 a3] by (simp add: case_prod_beta)

lemma shiftRows_words:
  "shiftRows [w0, w1, w2, w3] = Inr [w0, rotWordLeft w1 1, rotWordLeft w2 2, rotWordLeft w3 3]"
  by (simp add: shiftRows_def modify_def)

lemma invShiftRows_words:
  "invShiftRows [w0, w1, w2, w3] =
     Inr [w0, rotWordRight w1 1, rotWordRight w2 2, rotWordRight w3 3]"
  by (simp add: invShiftRows_def modify_def)

lemma rotWordRight_rotWordLeft [simp]:
  "rotWordRight (rotWordLeft w 1) 1 = w"
  "rotWordRight (rotWordLeft w 2) 2 = w"
  "rotWordRight (rotWordLeft w 3) 3 = w"
  using word_bytes_exhaust [of w] by (auto simp: rotWordLeft_bytes rotWordRight_bytes)

lemma shiftRows_inverse:
  assumes "length s = 4"
  shows "\<exists>t. shiftRows s = Inr t \<and> length t = 4 \<and> invShiftRows t = Inr s"
proof -
  obtain w0 w1 w2 w3 where s: "s = [w0, w1, w2, w3]"
    using length4_cases [OF assms] by blast
  show ?thesis
    by (simp add: s shiftRows_words invShiftRows_words)
qed

lemma invShiftRows_total:
  assumes "length s = 4"
  shows "\<exists>t. invShiftRows s = Inr t \<and> length t = 4"
proof -
  obtain w0 w1 w2 w3 where s: "s = [w0, w1, w2, w3]"
    using length4_cases [OF assms] by blast
  show ?thesis
    by (simp add: s invShiftRows_words)
qed

lemma subBytes_inverse [simp]: "invSubBytes (subBytes s) = s"
  by (simp add: invSubBytes_def subBytes_def comp_def)

lemma length_subBytes [simp]: "length (subBytes s) = length s"
  by (simp add: subBytes_def)

lemma length_invSubBytes [simp]: "length (invSubBytes s) = length s"
  by (simp add: invSubBytes_def)

lemma xor_cancel_right [simp]: "((a :: uint32) XOR b) XOR b = a"
  by (simp add: xor.assoc)

lemma addRoundKey_words:
  "addRoundKey [w0, w1, w2, w3] [k0, k1, k2, k3] =
     Inr [w0 XOR k0, w1 XOR k1, w2 XOR k2, w3 XOR k3]"
  by (simp add: addRoundKey_def)

lemma addRoundKey_inverse:
  assumes "length s = 4" and "length k = 4"
  shows "\<exists>t. addRoundKey s k = Inr t \<and> length t = 4 \<and> addRoundKey t k = Inr s"
proof -
  obtain w0 w1 w2 w3 where s: "s = [w0, w1, w2, w3]"
    using length4_cases [OF assms(1)] by blast
  obtain k0 k1 k2 k3 where k: "k = [k0, k1, k2, k3]"
    using length4_cases [OF assms(2)] by blast
  show ?thesis
    by (simp add: s k addRoundKey_words)
qed

lemma mixColumns_inverse:
  assumes "length s = 4"
  shows "\<exists>t. mixColumns s = Inr t \<and> length t = 4 \<and> invMixColumns t = Inr s"
proof -
  obtain a0 a1 a2 a3 b0 b1 b2 b3 c0 c1 c2 c3 d0 d1 d2 d3 where
    s: "s = [word_of_bytes a0 a1 a2 a3, word_of_bytes b0 b1 b2 b3,
             word_of_bytes c0 c1 c2 c3, word_of_bytes d0 d1 d2 d3]"
    using state_bytes_exhaust [OF assms] by blast
  show ?thesis
    by (simp add: s mixColumns_def invMixColumns_def manipulateColumns_bytes calc_inverse_proj)
qed

lemma subslice_group:
  assumes "0 \<le> i" and "i + 4 \<le> int (length xs)"
  shows "\<exists>k. subslice xs i (i + 4) = Inr k \<and> length k = 4"
  using assms by (simp add: subslice_eq)


lemma bindp_assoc: "bindp (bindp m f) g = bindp m (\<lambda>x. bindp (f x) g)"
  by (cases m) simp_all

lemma decrypt_loop_append:
  "decrypt_loop (m + n) t kj ek =
     bindp (decrypt_loop m t kj ek) (\<lambda>(t1, k1). decrypt_loop n t1 k1 ek)"
proof (induction m arbitrary: t kj)
  case 0
  show ?case by simp
next
  case (Suc m)
  show ?case
    by (simp add: Suc.IH bindp_assoc)
qed

lemma loops_inverse:
  assumes "length s = 4" and "0 \<le> ki" and "ki + 4 * int n \<le> int (length ek)"
  shows "\<exists>s' t0 t'. encrypt_loop n s ki ek = Inr (s', ki + 4 * int n) \<and> length s' = 4 \<and>
           shiftRows (subBytes s) = Inr t0 \<and> shiftRows (subBytes s') = Inr t' \<and>
           decrypt_loop n t' (ki + 4 * int n - 4) ek = Inr (t0, ki - 4)"
  using assms
proof (induction n arbitrary: s ki)
  case 0
  obtain t0 where "shiftRows (subBytes s) = Inr t0"
    using shiftRows_inverse [of "subBytes s"] "0.prems" by auto
  then show ?case
    using "0.prems" by simp
next
  case (Suc n)
  obtain t0 where t0: "shiftRows (subBytes s) = Inr t0" "length t0 = 4"
    using shiftRows_inverse [of "subBytes s"] Suc.prems by auto
  obtain m where m: "mixColumns t0 = Inr m" "length m = 4" "invMixColumns m = Inr t0"
    using mixColumns_inverse [OF t0(2)] by blast
  obtain k where k: "subslice ek ki (ki + 4) = Inr k" "length k = 4"
    using subslice_group [of ki ek] Suc.prems by auto
  obtain s1 where s1: "addRoundKey m k = Inr s1" "length s1 = 4" "addRoundKey s1 k = Inr m"
    using addRoundKey_inverse [OF m(2) k(2)] by blast
  have bounds: "0 \<le> ki + 4" "ki + 4 + 4 * int n \<le> int (length ek)"
    using Suc.prems by simp_all
  obtain s' t1 t' where ih:
    "encrypt_loop n s1 (ki + 4) ek = Inr (s', ki + 4 + 4 * int n)" "length s' = 4"
    "shiftRows (subBytes s1) = Inr t1" "shiftRows (subBytes s') = Inr t'"
    "decrypt_loop n t' (ki + 4 + 4 * int n - 4) ek = Inr (t1, ki + 4 - 4)"
    using Suc.IH [OF s1(2) bounds] by blast
  have unshift: "invShiftRows t1 = Inr (subBytes s1)"
    using shiftRows_inverse [of "subBytes s1"] s1(2) ih(3) by auto
  have enc: "encrypt_loop (Suc n) s ki ek = Inr (s', ki + 4 * int (Suc n))"
    using t0 m k s1 ih(1) by (simp add: algebra_simps)
  have "decrypt_loop (n + 1) t' (ki + 4 * int (Suc n) - 4) ek =
          bindp (decrypt_loop n t' (ki + 4 * int (Suc n) - 4) ek)
            (\<lambda>(t1, k1). decrypt_loop 1 t1 k1 ek)"
    by (rule decrypt_loop_append)
  also have "ki + 4 * int (Suc n) - 4 = ki + 4 + 4 * int n - 4"
    by simp
  also have "bindp (decrypt_loop n t' (ki + 4 + 4 * int n - 4) ek)
               (\<lambda>(t1, k1). decrypt_loop 1 t1 k1 ek) = Inr (t0, ki - 4)"
    using ih(5) unshift k s1 m by simp
  finally have dec: "decrypt_loop (Suc n) t' (ki + 4 * int (Suc n) - 4) ek = Inr (t0, ki - 4)"
    by simp
  show ?case
    using enc ih(2) t0(1) ih(4) dec by blast
qed

lemma encrypt_decrypt:
  assumes "length s = 4" and "length ek = 44"
  shows "\<exists>c. encrypt s ek = Inr c \<and> length c = 4 \<and> decrypt c ek = Inr s"
proof -
  obtain k0 where k0: "subslice ek 0 4 = Inr k0" "length k0 = 4"
    using subslice_group [of 0 ek] assms by auto
  obtain s1 where s1: "addRoundKey s k0 = Inr s1" "length s1 = 4" "addRoundKey s1 k0 = Inr s"
    using addRoundKey_inverse [OF assms(1) k0(2)] by blast
  obtain s' t0 t' where lp:
    "encrypt_loop 9 s1 4 ek = Inr (s', 4 + 4 * int 9)" "length s' = 4"
    "shiftRows (subBytes s1) = Inr t0" "shiftRows (subBytes s') = Inr t'"
    "decrypt_loop 9 t' (4 + 4 * int 9 - 4) ek = Inr (t0, 4 - 4)"
    using loops_inverse [of s1 4 9 ek] s1(2) assms(2) by auto
  have t': "length t' = 4"
    using shiftRows_inverse [of "subBytes s'"] lp(2,4) by auto
  have unshift: "invShiftRows t0 = Inr (subBytes s1)"
    using shiftRows_inverse [of "subBytes s1"] s1(2) lp(3) by auto
  obtain k10 where k10: "subslice ek 40 44 = Inr k10" "length k10 = 4"
    using subslice_group [of 40 ek] assms by auto
  obtain c where c: "addRoundKey t' k10 = Inr c" "length c = 4" "addRoundKey c k10 = Inr t'"
    using addRoundKey_inverse [OF t' k10(2)] by blast
  have enc: "encrypt s ek = Inr c"
    using k0 s1 lp k10 c assms(2) by (simp add: encrypt_def)
  have dec: "decrypt c ek = Inr s"
    using k0 s1 lp k10 c unshift assms(2) by (simp add: decrypt_def)
  show ?thesis
    using enc dec c(2) by blast
qed

section \<open>The round transforms and their inverses\<close>

text \<open>
  Claim C4. Each primitive round transform is total on a state of four words (it returns a
  state, never a panic) and is undone exactly by its inverse: \<open>addRoundKey\<close> with the same
  four-word round key undoes itself, \<open>invSubBytes\<close> undoes \<open>subBytes\<close>, \<open>invShiftRows\<close>
  undoes \<open>shiftRows\<close>, and \<open>invMixColumns\<close> undoes \<open>mixColumns\<close>.
\<close>

theorem round_transforms_invertible:
  assumes "length s = 4" and "length k = 4"
  shows "bindp (addRoundKey s k) (\<lambda>t. addRoundKey t k) = Inr s \<and>
         invSubBytes (subBytes s) = s \<and>
         bindp (shiftRows s) invShiftRows = Inr s \<and>
         bindp (mixColumns s) invMixColumns = Inr s"
proof -
  obtain t1 where "addRoundKey s k = Inr t1" "addRoundKey t1 k = Inr s"
    using addRoundKey_inverse [OF assms] by blast
  moreover obtain t2 where "shiftRows s = Inr t2" "invShiftRows t2 = Inr s"
    using shiftRows_inverse [OF assms(1)] by blast
  moreover obtain t3 where "mixColumns s = Inr t3" "invMixColumns t3 = Inr s"
    using mixColumns_inverse [OF assms(1)] by blast
  ultimately show ?thesis
    by simp
qed

theorem round_transforms_invertible_witness:
  "length [0x3243f6a8, 0x885a308d, 0x313198a2, 0xe0370734 :: uint32] = 4 \<and>
   length [0x2b7e1516, 0x28aed2a6, 0xabf71588, 0x09cf4f3c :: uint32] = 4 \<and>
   bindp (addRoundKey [0x3243f6a8, 0x885a308d, 0x313198a2, 0xe0370734]
            [0x2b7e1516, 0x28aed2a6, 0xabf71588, 0x09cf4f3c])
     (\<lambda>t. addRoundKey t [0x2b7e1516, 0x28aed2a6, 0xabf71588, 0x09cf4f3c]) =
     Inr [0x3243f6a8, 0x885a308d, 0x313198a2, 0xe0370734] \<and>
   invSubBytes (subBytes [0x3243f6a8, 0x885a308d, 0x313198a2, 0xe0370734]) =
     [0x3243f6a8, 0x885a308d, 0x313198a2, 0xe0370734] \<and>
   bindp (shiftRows [0x3243f6a8, 0x885a308d, 0x313198a2, 0xe0370734]) invShiftRows =
     Inr [0x3243f6a8, 0x885a308d, 0x313198a2, 0xe0370734] \<and>
   bindp (mixColumns [0x3243f6a8, 0x885a308d, 0x313198a2, 0xe0370734]) invMixColumns =
     Inr [0x3243f6a8, 0x885a308d, 0x313198a2, 0xe0370734]"
  using round_transforms_invertible
    [of "[0x3243f6a8, 0x885a308d, 0x313198a2, 0xe0370734]"
        "[0x2b7e1516, 0x28aed2a6, 0xabf71588, 0x09cf4f3c]"]
  by simp

section \<open>The round sequence of \<open>encrypt\<close> and \<open>decrypt\<close>\<close>

lemma invMixColumns_total:
  assumes "length s = 4"
  shows "\<exists>t. invMixColumns s = Inr t \<and> length t = 4"
proof -
  obtain a0 a1 a2 a3 b0 b1 b2 b3 c0 c1 c2 c3 d0 d1 d2 d3 where
    s: "s = [word_of_bytes a0 a1 a2 a3, word_of_bytes b0 b1 b2 b3,
             word_of_bytes c0 c1 c2 c3, word_of_bytes d0 d1 d2 d3]"
    using state_bytes_exhaust [OF assms] by blast
  show ?thesis
    by (simp add: s invMixColumns_def manipulateColumns_bytes)
qed

lemma decrypt_loop_total:
  assumes "length s = 4" and "4 * int n \<le> kj + 4" and "kj + 4 \<le> int (length ek)"
  shows "\<exists>t. decrypt_loop n s kj ek = Inr (t, kj - 4 * int n) \<and> length t = 4"
  using assms
proof (induction n arbitrary: s kj)
  case 0
  then show ?case by simp
next
  case (Suc n)
  obtain t1 where t1: "invShiftRows s = Inr t1" "length t1 = 4"
    using invShiftRows_total [OF Suc.prems(1)] by blast
  obtain k where k: "subslice ek kj (kj + 4) = Inr k" "length k = 4"
    using subslice_group [of kj ek] Suc.prems by auto
  obtain t2 where t2: "addRoundKey (invSubBytes t1) k = Inr t2" "length t2 = 4"
    using addRoundKey_inverse [of "invSubBytes t1" k] t1(2) k(2) by auto
  obtain t3 where t3: "invMixColumns t2 = Inr t3" "length t3 = 4"
    using invMixColumns_total [OF t2(2)] by blast
  have bounds: "4 * int n \<le> kj - 4 + 4" "kj - 4 + 4 \<le> int (length ek)"
    using Suc.prems by simp_all
  obtain t where "decrypt_loop n t3 (kj - 4) ek = Inr (t, kj - 4 - 4 * int n)" "length t = 4"
    using Suc.IH [OF t3(2) bounds] by blast
  then show ?case
    using t1 k t2 t3 by (simp add: algebra_simps)
qed

lemma decrypt_total:
  assumes "length s = 4" and "length ek = 44"
  shows "\<exists>p. decrypt s ek = Inr p \<and> length p = 4"
proof -
  obtain k10 where k10: "subslice ek 40 44 = Inr k10" "length k10 = 4"
    using subslice_group [of 40 ek] assms by auto
  obtain s1 where s1: "addRoundKey s k10 = Inr s1" "length s1 = 4"
    using addRoundKey_inverse [OF assms(1) k10(2)] by blast
  obtain s2 where s2: "decrypt_loop 9 s1 36 ek = Inr (s2, 36 - 4 * int 9)" "length s2 = 4"
    using decrypt_loop_total [of s1 9 36 ek] s1(2) assms(2) by auto
  obtain s3 where s3: "invShiftRows s2 = Inr s3" "length s3 = 4"
    using invShiftRows_total [OF s2(2)] by blast
  obtain k0 where k0: "subslice ek 0 4 = Inr k0" "length k0 = 4"
    using subslice_group [of 0 ek] assms by auto
  obtain p where p: "addRoundKey (invSubBytes s3) k0 = Inr p" "length p = 4"
    using addRoundKey_inverse [of "invSubBytes s3" k0] s3(2) k0(2) by auto
  show ?thesis
    using k10 s1 s2 s3 k0 p assms(2) by (simp add: decrypt_def)
qed

lemma nine: "(9 :: nat) = Suc (Suc (Suc (Suc (Suc (Suc (Suc (Suc (Suc 0))))))))"
  by simp

lemma encrypt_sequence:
  assumes "length ek = 44"
  shows "encrypt s ek = spec_encrypt s ek"
proof -
  have "encrypt_loop 9 st 4 ek =
          bindp (spec_rounds spec_main_round ek [1, 2, 3, 4, 5, 6, 7, 8, 9] st) (\<lambda>st. Inr (st, 40))"
    for st
    unfolding nine
    by (simp add: assms subslice_eq round_key_def spec_main_round_def bindp_assoc)
  then show ?thesis
    by (simp add: encrypt_def spec_encrypt_def assms subslice_eq round_key_def
        spec_final_round_def bindp_assoc)
qed

lemma decrypt_sequence:
  assumes "length ek = 44"
  shows "decrypt s ek = spec_decrypt s ek"
proof -
  have "decrypt_loop 9 st 36 ek =
          bindp (spec_rounds spec_inv_main_round ek [9, 8, 7, 6, 5, 4, 3, 2, 1] st)
            (\<lambda>st. Inr (st, 0))"
    for st
    unfolding nine
    by (simp add: assms subslice_eq round_key_def spec_inv_main_round_def bindp_assoc)
  then show ?thesis
    by (simp add: decrypt_def spec_decrypt_def assms subslice_eq round_key_def
        spec_inv_final_round_def bindp_assoc)
qed

text \<open>
  Claim C3. On a state of four words and an expanded key of 44 words, \<open>encrypt\<close> is
  AddRoundKey with round key 0, then for \<open>i = 1..9\<close> SubBytes, ShiftRows, MixColumns,
  AddRoundKey with round key \<open>i\<close>, then SubBytes, ShiftRows, AddRoundKey with round key 10;
  \<open>decrypt\<close> is AddRoundKey with round key 10, then for \<open>i = 9..1\<close> InvShiftRows,
  InvSubBytes, AddRoundKey with round key \<open>i\<close>, InvMixColumns, then InvShiftRows,
  InvSubBytes, AddRoundKey with round key 0. Both return a state of four words.
\<close>

theorem round_sequence:
  assumes "length s = 4" and "length ek = 44"
  shows "encrypt s ek = spec_encrypt s ek \<and> decrypt s ek = spec_decrypt s ek \<and>
         (\<exists>c. encrypt s ek = Inr c \<and> length c = 4) \<and>
         (\<exists>p. decrypt s ek = Inr p \<and> length p = 4)"
  using encrypt_sequence [OF assms(2)] decrypt_sequence [OF assms(2)]
    encrypt_decrypt [OF assms] decrypt_total [OF assms]
  by auto

theorem round_sequence_witness:
  "length [0x3243f6a8, 0x885a308d, 0x313198a2, 0xe0370734 :: uint32] = 4 \<and>
   length (replicate 44 (0 :: uint32)) = 44 \<and>
   encrypt [0x3243f6a8, 0x885a308d, 0x313198a2, 0xe0370734] (replicate 44 0) =
     spec_encrypt [0x3243f6a8, 0x885a308d, 0x313198a2, 0xe0370734] (replicate 44 0) \<and>
   decrypt [0x3243f6a8, 0x885a308d, 0x313198a2, 0xe0370734] (replicate 44 0) =
     spec_decrypt [0x3243f6a8, 0x885a308d, 0x313198a2, 0xe0370734] (replicate 44 0) \<and>
   \<not> isl (encrypt [0x3243f6a8, 0x885a308d, 0x313198a2, 0xe0370734] (replicate 44 0)) \<and>
   \<not> isl (decrypt [0x3243f6a8, 0x885a308d, 0x313198a2, 0xe0370734] (replicate 44 0))"
proof -
  let ?s = "[0x3243f6a8, 0x885a308d, 0x313198a2, 0xe0370734 :: uint32]"
  let ?ek = "replicate 44 (0 :: uint32)"
  have r: "encrypt ?s ?ek = spec_encrypt ?s ?ek \<and> decrypt ?s ?ek = spec_decrypt ?s ?ek \<and>
           (\<exists>c. encrypt ?s ?ek = Inr c \<and> length c = 4) \<and>
           (\<exists>p. decrypt ?s ?ek = Inr p \<and> length p = 4)"
    by (rule round_sequence) simp_all
  from r obtain c where "encrypt ?s ?ek = Inr c"
    by blast
  then have e: "\<not> isl (encrypt ?s ?ek)"
    by simp
  from r obtain p where "decrypt ?s ?ek = Inr p"
    by blast
  then have d: "\<not> isl (decrypt ?s ?ek)"
    by simp
  from r have "encrypt ?s ?ek = spec_encrypt ?s ?ek" and "decrypt ?s ?ek = spec_decrypt ?s ?ek"
    by blast+
  with e d show ?thesis
    by simp
qed

section \<open>Key expansion: loading, the schedule and the transposed groups\<close>

lemma key_load_ok:
  assumes "16 \<le> length key"
  shows "key_load key 0 e =
           Inr (e[0 := word_of_bytes (key ! 0) (key ! 1) (key ! 2) (key ! 3),
                  1 := word_of_bytes (key ! 4) (key ! 5) (key ! 6) (key ! 7),
                  2 := word_of_bytes (key ! 8) (key ! 9) (key ! 10) (key ! 11),
                  3 := word_of_bytes (key ! 12) (key ! 13) (key ! 14) (key ! 15)])"
  using assms by (simp add: key_load.simps word_of_bytes_def numeral_2_eq_2 numeral_3_eq_3)

lemma key_load_short:
  assumes "length key < 16"
  shows "key_load key 0 e = Inl IndexOutOfRange"
  using assms by (simp add: key_load.simps)

lemma length_key_round [simp]: "length (key_round i e) = length e"
  by (simp add: key_round_def Let_def)

lemma length_key_rounds [simp]: "length (key_rounds i e) = length e"
  by (induction i e rule: key_rounds.induct) (simp add: key_rounds.simps)

lemma transposeW_words:
  "transposeW [k0, k1, k2, k3] = Inr (transposed [k0, k1, k2, k3])"
  by (simp add: transposeW_def transpose_step_def transposed_def word_of_bytes_def
      byte_extract ac_simps)


lemma list4_eqI:
  assumes "length xs = 4" and "xs ! 0 = a" and "xs ! 1 = b" and "xs ! 2 = c" and "xs ! 3 = d"
  shows "xs = [a, b, c, d]"
proof -
  obtain x0 x1 x2 x3 where "xs = [x0, x1, x2, x3]"
    using length4_cases [OF assms(1)] by blast
  with assms show ?thesis by simp
qed

lemma length_round_key: "4 * g + 4 \<le> length e \<Longrightarrow> length (round_key e g) = 4"
  by (simp add: round_key_def)

lemma round_key_nth: "4 * g + 4 \<le> length e \<Longrightarrow> i < 4 \<Longrightarrow> round_key e g ! i = e ! (4 * g + i)"
  by (simp add: round_key_def)

lemma round_key_update:
  assumes "4 * m + 4 \<le> length e" and "4 * g + 4 \<le> length e"
  shows "round_key (e[4 * m := a, 4 * m + 1 := b, 4 * m + 2 := c, 4 * m + 3 := d]) g =
           (if g = m then [a, b, c, d] else round_key e g)"
proof (cases "g = m")
  case True
  show ?thesis
    unfolding True using assms(1)
    by (simp add: list4_eqI length_round_key round_key_nth)
next
  case False
  have "round_key (e[4 * m := a, 4 * m + 1 := b, 4 * m + 2 := c, 4 * m + 3 := d]) g ! i =
          round_key e g ! i" if "i < 4" for i
    using that assms False by (simp add: round_key_nth nth_list_update)
  moreover have "length (round_key (e[4 * m := a, 4 * m + 1 := b, 4 * m + 2 := c, 4 * m + 3 := d]) g) = 4"
    and "length (round_key e g) = 4"
    using assms by (simp_all add: length_round_key)
  ultimately have "round_key (e[4 * m := a, 4 * m + 1 := b, 4 * m + 2 := c, 4 * m + 3 := d]) g =
      round_key e g"
    by (intro nth_equalityI) simp_all
  then show ?thesis
    using False by simp
qed


lemma transposed_nths:
  "[transposed k ! 0, transposed k ! Suc 0, transposed k ! 2, transposed k ! 3] = transposed k"
  by (simp add: transposed_def)

lemma transposeW_total:
  assumes "length k = 4"
  shows "transposeW k = Inr (transposed k)"
proof -
  obtain k0 k1 k2 k3 where "k = [k0, k1, k2, k3]"
    using length4_cases [OF assms] by blast
  then show ?thesis
    by (simp add: transposeW_words)
qed

lemma transpose_groups_spec:
  assumes "4 dvd length e" and "j = 4 * m"
  shows "\<exists>e'. transpose_groups j e = Inr e' \<and> length e' = length e \<and>
           (\<forall>g. 4 * g + 4 \<le> length e \<longrightarrow>
              round_key e' g = (if m \<le> g then transposed (round_key e g) else round_key e g))"
  using assms
proof (induction j e arbitrary: m rule: transpose_groups.induct)
  case (1 j e)
  show ?case
  proof (cases "j < length e")
    case False
    have "transpose_groups j e = Inr e"
      using False by (simp add: transpose_groups.simps [of j e])
    moreover have "\<not> m \<le> g" if "4 * g + 4 \<le> length e" for g
      using that False "1.prems"(2) by simp
    ultimately show ?thesis
      by simp
  next
    case True
    have fits: "4 * m + 4 \<le> length e"
      using True "1.prems" by auto
    have sl: "subslice e (int j) (int j + 4) = Inr (round_key e m)"
      using fits "1.prems"(2) by (simp add: subslice_eq round_key_def nat_mult_distrib)
    have tr: "transposeW (round_key e m) = Inr (transposed (round_key e m))"
      using fits by (simp add: transposeW_total length_round_key)
    let ?t = "transposed (round_key e m)"
    let ?e1 = "e[j := ?t ! 0, j + 1 := ?t ! 1, j + 2 := ?t ! 2, j + 3 := ?t ! 3]"
    have "\<exists>e'. transpose_groups (j + 4) ?e1 = Inr e' \<and> length e' = length ?e1 \<and>
           (\<forall>g. 4 * g + 4 \<le> length ?e1 \<longrightarrow>
              round_key e' g =
                (if m + 1 \<le> g then transposed (round_key ?e1 g) else round_key ?e1 g))"
      using "1.IH" [OF True sl tr, of "m + 1"] "1.prems" by simp
    then obtain e' where e': "transpose_groups (j + 4) ?e1 = Inr e'" "length e' = length e"
      "\<And>g. 4 * g + 4 \<le> length e \<Longrightarrow>
         round_key e' g = (if m + 1 \<le> g then transposed (round_key ?e1 g) else round_key ?e1 g)"
      by auto
    have upd: "round_key ?e1 g = (if g = m then ?t else round_key e g)"
      if "4 * g + 4 \<le> length e" for g
      using round_key_update [OF fits that, of "?t ! 0" "?t ! 1" "?t ! 2" "?t ! 3"]
      by (simp add: "1.prems"(2) transposed_nths)
    have "transpose_groups j e = Inr e'"
      using True sl tr e'(1) by (simp add: transpose_groups.simps [of j e])
    moreover have "round_key e' g = (if m \<le> g then transposed (round_key e g) else round_key e g)"
      if "4 * g + 4 \<le> length e" for g
      using e'(3) [OF that] upd [OF that] by (cases "g = m") auto
    ultimately show ?thesis
      using e'(2) by blast
  qed
qed

lemma key_round_eq:
  assumes "length e = 44" and "4 \<le> i" and "i \<le> 40"
  shows "key_round i e =
           e[i := subWord (rotWordLeft (e ! (i - 1)) 1) XOR rcon (i div 4 - 1) XOR e ! (i - 4),
             i + 1 := subWord (rotWordLeft (e ! (i - 1)) 1) XOR rcon (i div 4 - 1) XOR e ! (i - 4)
                        XOR e ! (i - 3),
             i + 2 := subWord (rotWordLeft (e ! (i - 1)) 1) XOR rcon (i div 4 - 1) XOR e ! (i - 4)
                        XOR e ! (i - 3) XOR e ! (i - 2),
             i + 3 := subWord (rotWordLeft (e ! (i - 1)) 1) XOR rcon (i div 4 - 1) XOR e ! (i - 4)
                        XOR e ! (i - 3) XOR e ! (i - 2) XOR e ! (i - 1)]"
  using assms by (simp add: key_round_def Let_def xor.assoc)

lemma key_round_below:
  assumes "length e = 44" and "4 \<le> i" and "i \<le> 40" and "j < i"
  shows "key_round i e ! j = e ! j"
  using assms by (simp add: key_round_eq)

lemma key_round_schedule:
  assumes "length e = 44" and "4 \<le> i" and "i \<le> 40" and "4 dvd i" and "i \<le> j" and "j < i + 4"
  shows "key_round i e ! j = schedule_word (key_round i e) j"
proof -
  have m: "(i + 1) mod 4 \<noteq> 0" "(i + 2) mod 4 \<noteq> 0" "(i + 3) mod 4 \<noteq> 0" "i mod 4 = 0"
    using assms(4) by presburger+
  consider "j = i" | "j = i + 1" | "j = i + 2" | "j = i + 3"
    using assms(5,6) by arith
  then show ?thesis
  proof cases
    case 1
    show ?thesis
      unfolding 1 using assms(1-3) m(4)
      by (simp add: key_round_eq schedule_word_def)
  next
    case 2
    show ?thesis
      unfolding 2 using assms(1-3) m(1)
      by (simp add: key_round_eq schedule_word_def xor.assoc)
  next
    case 3
    show ?thesis
      unfolding 3 using assms(1-3) m(2)
      by (simp add: key_round_eq schedule_word_def xor.assoc)
  next
    case 4
    show ?thesis
      unfolding 4 using assms(1-3) m(3)
      by (simp add: key_round_eq schedule_word_def xor.assoc)
  qed
qed


lemma schedule_word_cong:
  assumes "w ! (j - 1) = v ! (j - 1)" and "w ! (j - 4) = v ! (j - 4)"
  shows "schedule_word w j = schedule_word v j"
  using assms by (simp add: schedule_word_def)

lemma key_rounds_inv:
  assumes "length e = 44" and "4 \<le> i" and "i \<le> 44" and "4 dvd i"
  shows "(\<forall>j<i. key_rounds i e ! j = e ! j) \<and>
         (\<forall>j. i \<le> j \<and> j < 44 \<longrightarrow> key_rounds i e ! j = schedule_word (key_rounds i e) j)"
  using assms
proof (induction i e rule: key_rounds.induct)
  case (1 i e)
  show ?case
  proof (cases "i < 44")
    case False
    then show ?thesis
      by (auto simp: key_rounds.simps [of i e])
  next
    case True
    have i40: "i \<le> 40"
      using True "1.prems"(4) by presburger
    let ?e1 = "key_round i e"
    let ?w = "key_rounds (i + 4) ?e1"
    have unfold: "key_rounds i e = ?w"
      using True by (simp add: key_rounds.simps [of i e])
    have "4 dvd i + 4"
      using "1.prems"(4) by simp
    then have ih: "\<And>j. j < i + 4 \<Longrightarrow> ?w ! j = ?e1 ! j"
      "\<And>j. i + 4 \<le> j \<Longrightarrow> j < 44 \<Longrightarrow> ?w ! j = schedule_word ?w j"
      using "1.IH" [OF True] "1.prems"(1,2) i40 by simp_all
    have below: "?w ! j = e ! j" if "j < i" for j
      using ih(1) [of j] that key_round_below [OF "1.prems"(1,2) i40 that] by simp
    have sched: "?w ! j = schedule_word ?w j" if "i \<le> j" and "j < 44" for j
    proof (cases "i + 4 \<le> j")
      case True
      then show ?thesis
        using ih(2) that(2) by simp
    next
      case False
      then have j: "j < i + 4"
        by simp
      have "?w ! j = ?e1 ! j"
        using ih(1) j by simp
      also have "\<dots> = schedule_word ?e1 j"
        using key_round_schedule [OF "1.prems"(1,2) i40 "1.prems"(4) that(1) j] .
      also have "\<dots> = schedule_word ?w j"
        using j by (intro schedule_word_cong) (simp_all add: ih(1))
      finally show ?thesis .
    qed
    show ?thesis
      unfolding unfold using below sched by simp
  qed
qed


lemma keyExpansion_expanded:
  assumes "16 \<le> length key"
  shows "\<exists>w ek. matasano_keyExpansion key = Inr w \<and> keyExpansion key = Inr ek \<and>
           key_schedule_spec key w \<and> length ek = 44 \<and>
           (\<forall>g<11. round_key ek g = transposed (round_key w g))"
proof -
  define e0 where "e0 = (replicate 44 (0 :: uint32))
                [0 := word_of_bytes (key ! 0) (key ! 1) (key ! 2) (key ! 3),
                 1 := word_of_bytes (key ! 4) (key ! 5) (key ! 6) (key ! 7),
                 2 := word_of_bytes (key ! 8) (key ! 9) (key ! 10) (key ! 11),
                 3 := word_of_bytes (key ! 12) (key ! 13) (key ! 14) (key ! 15)]"
  define w where "w = key_rounds 4 e0"
  have load: "key_load key 0 (replicate 44 0) = Inr e0"
    unfolding e0_def by (rule key_load_ok [OF assms])
  have len: "length e0 = 44" "length w = 44"
    by (simp_all add: e0_def w_def)
  have inv: "\<And>j. j < 4 \<Longrightarrow> w ! j = e0 ! j"
    "\<And>j. 4 \<le> j \<Longrightarrow> j < 44 \<Longrightarrow> w ! j = schedule_word w j"
    using key_rounds_inv [of e0 4] len(1) by (simp_all add: w_def)
  have first: "w ! i = word_of_bytes (key ! (4 * i)) (key ! (4 * i + 1))
                 (key ! (4 * i + 2)) (key ! (4 * i + 3))" if "i < 4" for i
  proof -
    have "i = 0 \<or> i = 1 \<or> i = 2 \<or> i = 3"
      using that by arith
    moreover have "w ! i = e0 ! i"
      by (rule inv(1) [OF that])
    ultimately show ?thesis
      by (auto simp: e0_def numeral_2_eq_2 numeral_3_eq_3)
  qed
  have spec: "key_schedule_spec key w"
    using first inv(2) len(2) by (simp add: key_schedule_spec_def)
  obtain ek where ek: "transpose_groups 0 w = Inr ek" "length ek = length w"
    "\<And>g. 4 * g + 4 \<le> length w \<Longrightarrow> round_key ek g = transposed (round_key w g)"
    using transpose_groups_spec [of w 0 0] len(2) by auto
  have "matasano_keyExpansion key = Inr w"
    by (simp add: matasano_keyExpansion_def load w_def)
  moreover have "keyExpansion key = Inr ek"
    using ek(1) by (simp add: keyExpansion_def load w_def)
  moreover have "round_key ek g = transposed (round_key w g)" if "g < 11" for g
    using ek(3) [of g] that len(2) by simp
  ultimately show ?thesis
    using spec ek(2) len(2) by auto
qed

lemma keyExpansion_short:
  assumes "length key < 16"
  shows "keyExpansion key = Inl IndexOutOfRange" and "matasano_keyExpansion key = Inl IndexOutOfRange"
  by (simp_all add: keyExpansion_def matasano_keyExpansion_def key_load_short [OF assms])

lemma keyExpansion_prefix:
  assumes "16 \<le> length key"
  shows "keyExpansion key = keyExpansion (take 16 key)"
    and "matasano_keyExpansion key = matasano_keyExpansion (take 16 key)"
  using assms by (simp_all add: keyExpansion_def matasano_keyExpansion_def key_load_ok)

section \<open>What the key expansion returns\<close>

lemma rcon_bytes: "rcon j = word_of_bytes (powx ! j) 0 0 0"
  by (simp add: rcon_def word_of_bytes_def)

lemma keyExpansion_total:
  assumes "16 \<le> length key"
  shows "\<exists>ek. keyExpansion key = Inr ek \<and> length ek = 44"
  using keyExpansion_expanded [OF assms] by blast

lemma keyExpansion_first_word:
  assumes "16 \<le> length key"
  shows "projr (keyExpansion key) ! 0 =
           word_of_bytes (key ! 0) (key ! 4) (key ! 8) (key ! 12)"
proof -
  obtain w ek where e: "keyExpansion key = Inr ek" "key_schedule_spec key w"
    "\<And>g. g < 11 \<Longrightarrow> round_key ek g = transposed (round_key w g)" "length ek = 44"
    using keyExpansion_expanded [OF assms] by blast
  have w: "length w = 44" "w ! 0 = word_of_bytes (key ! 0) (key ! 1) (key ! 2) (key ! 3)"
    "w ! 1 = word_of_bytes (key ! 4) (key ! 5) (key ! 6) (key ! 7)"
    "w ! 2 = word_of_bytes (key ! 8) (key ! 9) (key ! 10) (key ! 11)"
    "w ! 3 = word_of_bytes (key ! 12) (key ! 13) (key ! 14) (key ! 15)"
    using e(2) by (simp_all add: key_schedule_spec_def numeral_2_eq_2 numeral_3_eq_3)
  have "ek ! 0 = round_key ek 0 ! 0"
    using e(4) by (simp add: round_key_nth)
  also have "\<dots> = transposed (round_key w 0) ! 0"
    by (simp add: e(3))
  also have "\<dots> = word_of_bytes (key ! 0) (key ! 4) (key ! 8) (key ! 12)"
    using w by (simp add: transposed_def round_key_nth numeral_2_eq_2 numeral_3_eq_3)
  finally show ?thesis
    by (simp add: e(1))
qed

text \<open>
  The words returned by \<open>keyExpansion\<close> of package \<open>aes\<close> for the key \<open>00 01 .. 0f\<close> do
  not start with the key packed big-endian: word 0 is \<open>0004080c\<close>, the first column of
  the key.
\<close>

theorem key_schedule_counterexample:
  "projr (keyExpansion [0, 1, 2, 3, 4, 5, 6, 7, 8, 9, 10, 11, 12, 13, 14, 15]) ! 0 = 0x0004080c \<and>
   \<not> key_schedule_spec [0, 1, 2, 3, 4, 5, 6, 7, 8, 9, 10, 11, 12, 13, 14, 15]
       (projr (keyExpansion [0, 1, 2, 3, 4, 5, 6, 7, 8, 9, 10, 11, 12, 13, 14, 15]))"
proof -
  let ?K = "[0, 1, 2, 3, 4, 5, 6, 7, 8, 9, 10, 11, 12, 13, 14, 15] :: byte list"
  have v: "projr (keyExpansion ?K) ! 0 = 0x0004080c"
    using keyExpansion_first_word [of ?K] by (simp add: word_of_bytes_def)
  have "\<not> key_schedule_spec ?K (projr (keyExpansion ?K))"
  proof
    assume "key_schedule_spec ?K (projr (keyExpansion ?K))"
    then have "projr (keyExpansion ?K) ! 0 = word_of_bytes 0 1 2 3"
      by (simp add: key_schedule_spec_def numeral_2_eq_2 numeral_3_eq_3)
    with v show False
      by (simp add: word_of_bytes_def)
  qed
  with v show ?thesis
    by blast
qed


text \<open>
  Claim C2, as amended. For every 16-byte key the key schedule has exactly 44 words: the
  first 4 are the key packed big-endian per word, every later word \<open>w[i]\<close> with \<open>i\<close> not
  a multiple of 4 is \<open>w[i-1] XOR w[i-4]\<close>, and every word with \<open>i mod 4 = 0\<close> is
  \<open>SubWord(RotWordLeft(w[i-1], 1)) XOR Rcon(i/4 - 1) XOR w[i-4]\<close>, where \<open>Rcon(j)\<close> has
  \<open>powx[j]\<close> in its most significant byte and zero elsewhere. \<open>keyExpansion\<close> of package
  \<open>matasano\<close> returns these words; \<open>keyExpansion\<close> of package \<open>aes\<close> returns 44 words
  in which every group of four is the transposed 4x4 byte matrix of the corresponding group
  of the schedule.
\<close>

theorem key_schedule:
  assumes "length key = 16"
  shows "\<exists>w ek. matasano_keyExpansion key = Inr w \<and> key_schedule_spec key w \<and>
           keyExpansion key = Inr ek \<and> length ek = 44 \<and>
           (\<forall>g \<in> {0..<11}. round_key ek g = transposed (round_key w g)) \<and>
           (\<forall>j. rcon j = word_of_bytes (powx ! j) 0 0 0)"
proof -
  obtain w ek where "matasano_keyExpansion key = Inr w" "keyExpansion key = Inr ek"
    "key_schedule_spec key w" "length ek = 44"
    "\<forall>g<11. round_key ek g = transposed (round_key w g)"
    using keyExpansion_expanded [of key] assms by auto
  then show ?thesis
    using rcon_bytes by auto
qed

text \<open>The theorem at the key \<open>2b7e1516 28aed2a6 abf71588 09cf4f3c\<close>.\<close>

theorem key_schedule_witness:
  "length [0x2b, 0x7e, 0x15, 0x16, 0x28, 0xae, 0xd2, 0xa6,
           0xab, 0xf7, 0x15, 0x88, 0x09, 0xcf, 0x4f, 0x3c :: byte] = 16 \<and>
   (\<exists>w ek.
      matasano_keyExpansion [0x2b, 0x7e, 0x15, 0x16, 0x28, 0xae, 0xd2, 0xa6,
                             0xab, 0xf7, 0x15, 0x88, 0x09, 0xcf, 0x4f, 0x3c] = Inr w \<and>
      key_schedule_spec [0x2b, 0x7e, 0x15, 0x16, 0x28, 0xae, 0xd2, 0xa6,
                         0xab, 0xf7, 0x15, 0x88, 0x09, 0xcf, 0x4f, 0x3c] w \<and>
      keyExpansion [0x2b, 0x7e, 0x15, 0x16, 0x28, 0xae, 0xd2, 0xa6,
                    0xab, 0xf7, 0x15, 0x88, 0x09, 0xcf, 0x4f, 0x3c] = Inr ek \<and>
      length ek = 44 \<and>
      (\<forall>g \<in> {0..<11}. round_key ek g = transposed (round_key w g)) \<and>
      (\<forall>j. rcon j = word_of_bytes (powx ! j) 0 0 0))"
proof
  show "length [0x2b, 0x7e, 0x15, 0x16, 0x28, 0xae, 0xd2, 0xa6,
                0xab, 0xf7, 0x15, 0x88, 0x09, 0xcf, 0x4f, 0x3c :: byte] = 16"
    by simp
  then show "\<exists>w ek.
      matasano_keyExpansion [0x2b, 0x7e, 0x15, 0x16, 0x28, 0xae, 0xd2, 0xa6,
                             0xab, 0xf7, 0x15, 0x88, 0x09, 0xcf, 0x4f, 0x3c] = Inr w \<and>
      key_schedule_spec [0x2b, 0x7e, 0x15, 0x16, 0x28, 0xae, 0xd2, 0xa6,
                         0xab, 0xf7, 0x15, 0x88, 0x09, 0xcf, 0x4f, 0x3c] w \<and>
      keyExpansion [0x2b, 0x7e, 0x15, 0x16, 0x28, 0xae, 0xd2, 0xa6,
                    0xab, 0xf7, 0x15, 0x88, 0x09, 0xcf, 0x4f, 0x3c] = Inr ek \<and>
      length ek = 44 \<and>
      (\<forall>g \<in> {0..<11}. round_key ek g = transposed (round_key w g)) \<and>
      (\<forall>j. rcon j = word_of_bytes (powx ! j) 0 0 0)"
    by (rule key_schedule)
qed

text \<open>A key of 17 bytes is accepted by \<open>keyExpansion\<close> and by \<open>NewCipher\<close>.\<close>

theorem key_length_counterexample:
  "\<not> isl (keyExpansion [0, 1, 2, 3, 4, 5, 6, 7, 8, 9, 10, 11, 12, 13, 14, 15, 16]) \<and>
   \<not> isl (NewCipher [0, 1, 2, 3, 4, 5, 6, 7, 8, 9, 10, 11, 12, 13, 14, 15, 16])"
proof -
  obtain ek where
    "keyExpansion [0, 1, 2, 3, 4, 5, 6, 7, 8, 9, 10, 11, 12, 13, 14, 15, 16] = Inr ek"
    using keyExpansion_total [of "[0, 1, 2, 3, 4, 5, 6, 7, 8, 9, 10, 11, 12, 13, 14, 15, 16]"]
    by auto
  then show ?thesis
    by (simp add: NewCipher_def)
qed

text \<open>
  Claim C5, as amended. \<open>keyExpansion\<close> and \<open>NewCipher\<close> have no error result. With a key
  of fewer than 16 bytes (15, say) they stop with Go's index-out-of-range panic, raised
  in the loop that reads the key bytes; with a key of 16 bytes or more (17, say) they
  succeed and give an expanded key of 44 words.
\<close>

theorem key_length_handling:
  "(length key < 16 \<longrightarrow>
      keyExpansion key = Inl IndexOutOfRange \<and> NewCipher key = Inl IndexOutOfRange) \<and>
   (16 \<le> length key \<longrightarrow>
      (\<exists>ek. keyExpansion key = Inr ek \<and> length ek = 44 \<and>
            NewCipher key = Inr \<lparr>expkey = ek\<rparr>))"
proof (intro conjI impI)
  assume "length key < 16"
  then show "keyExpansion key = Inl IndexOutOfRange" "NewCipher key = Inl IndexOutOfRange"
    by (simp_all add: NewCipher_def keyExpansion_short)
next
  assume "16 \<le> length key"
  then obtain ek where "keyExpansion key = Inr ek" "length ek = 44"
    using keyExpansion_total by blast
  then show "\<exists>ek. keyExpansion key = Inr ek \<and> length ek = 44 \<and>
                  NewCipher key = Inr \<lparr>expkey = ek\<rparr>"
    by (simp add: NewCipher_def)
qed

text \<open>The theorem at a key of 15 and at a key of 17 zero bytes.\<close>

theorem key_length_handling_witness:
  "keyExpansion (replicate 15 0) = Inl IndexOutOfRange \<and>
   NewCipher (replicate 15 0) = Inl IndexOutOfRange \<and>
   (\<exists>ek. keyExpansion (replicate 17 0) = Inr ek \<and> length ek = 44 \<and>
         NewCipher (replicate 17 0) = Inr \<lparr>expkey = ek\<rparr>)"
  using key_length_handling [of "replicate 15 0"] key_length_handling [of "replicate 17 0"]
  by simp

text \<open>
  Claim C10. \<open>keyExpansion\<close> reads only the first 16 bytes of its key: two keys of at
  least 16 bytes that agree on their first 16 bytes have the same expanded key, which
  exists (the longer key is not rejected), hence the same cipher from \<open>NewCipher\<close> and the
  same results of \<open>Encrypt\<close> and \<open>Decrypt\<close>.
\<close>

theorem key_prefix_only:
  assumes "16 \<le> length k1" and "16 \<le> length k2" and "take 16 k1 = take 16 k2"
  shows "keyExpansion k1 = keyExpansion k2 \<and> \<not> isl (keyExpansion k1) \<and>
         NewCipher k1 = NewCipher k2 \<and>
         bindp (NewCipher k1) (\<lambda>a. Encrypt a dst src) =
           bindp (NewCipher k2) (\<lambda>a. Encrypt a dst src) \<and>
         bindp (NewCipher k1) (\<lambda>a. Decrypt a dst src) =
           bindp (NewCipher k2) (\<lambda>a. Decrypt a dst src)"
proof -
  have eq: "keyExpansion k1 = keyExpansion k2"
    using keyExpansion_prefix(1) [OF assms(1)] keyExpansion_prefix(1) [OF assms(2)] assms(3)
    by simp
  obtain ek where "keyExpansion k1 = Inr ek"
    using keyExpansion_total [OF assms(1)] by blast
  then have "\<not> isl (keyExpansion k1)"
    by simp
  with eq show ?thesis
    by (simp add: NewCipher_def)
qed

text \<open>The theorem at two keys of 17 and 18 bytes with the same first 16 bytes.\<close>

theorem key_prefix_only_witness:
  "16 \<le> length (replicate 16 (0 :: byte) @ [1]) \<and>
   16 \<le> length (replicate 16 (0 :: byte) @ [2, 3]) \<and>
   take 16 (replicate 16 (0 :: byte) @ [1]) = take 16 (replicate 16 (0 :: byte) @ [2, 3]) \<and>
   keyExpansion (replicate 16 0 @ [1]) = keyExpansion (replicate 16 0 @ [2, 3]) \<and>
   \<not> isl (keyExpansion (replicate 16 0 @ [1])) \<and>
   NewCipher (replicate 16 0 @ [1]) = NewCipher (replicate 16 0 @ [2, 3]) \<and>
   bindp (NewCipher (replicate 16 0 @ [1]))
     (\<lambda>a. Encrypt a \<lparr>vis = replicate 16 0, spare = []\<rparr> \<lparr>vis = replicate 16 7, spare = []\<rparr>) =
     bindp (NewCipher (replicate 16 0 @ [2, 3]))
       (\<lambda>a. Encrypt a \<lparr>vis = replicate 16 0, spare = []\<rparr> \<lparr>vis = replicate 16 7, spare = []\<rparr>)"
proof -
  have a: "16 \<le> length (replicate 16 (0 :: byte) @ [1])"
    and b: "16 \<le> length (replicate 16 (0 :: byte) @ [2, 3])"
    and c: "take 16 (replicate 16 (0 :: byte) @ [1]) = take 16 (replicate 16 (0 :: byte) @ [2, 3])"
    by simp_all
  from key_prefix_only [OF a b c, of "\<lparr>vis = replicate 16 0, spare = []\<rparr>"
      "\<lparr>vis = replicate 16 7, spare = []\<rparr>"] a b c
  show ?thesis
    by blast
qed

section \<open>Blocks of 16 bytes: \<open>pack\<close>, \<open>unpack\<close>, \<open>Encrypt\<close> and \<open>Decrypt\<close>\<close>

lemma length16_cases:
  assumes "length (b :: 'a list) = 16"
  shows "\<exists>b0 b1 b2 b3 b4 b5 b6 b7 b8 b9 b10 b11 b12 b13 b14 b15.
           b = [b0, b1, b2, b3, b4, b5, b6, b7, b8, b9, b10, b11, b12, b13, b14, b15]"
proof -
  have "b = take 4 b @ take 4 (drop 4 b) @ take 4 (drop 8 b) @ drop 12 b"
  proof -
    have "take 4 (drop 4 b) @ drop 8 b = drop 4 b"
      using append_take_drop_id [of 4 "drop 4 b"] by simp
    moreover have "take 4 (drop 8 b) @ drop 12 b = drop 8 b"
      using append_take_drop_id [of 4 "drop 8 b"] by simp
    moreover have "take 4 b @ drop 4 b = b"
      by simp
    ultimately show ?thesis
      by simp
  qed
  moreover have "length (take 4 b) = 4" "length (take 4 (drop 4 b)) = 4"
      "length (take 4 (drop 8 b)) = 4" "length (drop 12 b) = 4"
    using assms by simp_all
  ultimately obtain q0 q1 q2 q3 where q: "length q0 = 4" "length q1 = 4" "length q2 = 4"
    "length q3 = 4" "b = q0 @ q1 @ q2 @ q3"
    by blast
  obtain a0 a1 a2 a3 where "q0 = [a0, a1, a2, a3]"
    using length4_cases [OF q(1)] by blast
  moreover obtain a4 a5 a6 a7 where "q1 = [a4, a5, a6, a7]"
    using length4_cases [OF q(2)] by blast
  moreover obtain a8 a9 a10 a11 where "q2 = [a8, a9, a10, a11]"
    using length4_cases [OF q(3)] by blast
  moreover obtain a12 a13 a14 a15 where "q3 = [a12, a13, a14, a15]"
    using length4_cases [OF q(4)] by blast
  ultimately have "b = [a0, a1, a2, a3, a4, a5, a6, a7, a8, a9, a10, a11, a12, a13, a14, a15]"
    using q(5) by simp
  then show ?thesis
    by blast
qed


lemma length_pack [simp]: "length (pack state src) = length state"
  by (simp add: pack_def)

lemma length_unpack [simp]: "length (unpack dst state) = length dst"
  by (simp add: unpack_def)

lemma replicate4: "replicate 4 x = [x, x, x, x]"
  by (simp add: numeral_eq_Suc)

lemma pack_words:
  "pack [x0, x1, x2, x3] [b0, b1, b2, b3, b4, b5, b6, b7, b8, b9, b10, b11, b12, b13, b14, b15] =
     [word_of_bytes b0 b4 b8 b12, word_of_bytes b1 b5 b9 b13,
      word_of_bytes b2 b6 b10 b14, word_of_bytes b3 b7 b11 b15]"
  by (simp add: pack_def)


lemma unpack_words:
  "unpack [d0, d1, d2, d3, d4, d5, d6, d7, d8, d9, d10, d11, d12, d13, d14, d15]
     [w0, w1, w2, w3] =
     [byte_at w0 0, byte_at w1 0, byte_at w2 0, byte_at w3 0,
      byte_at w0 1, byte_at w1 1, byte_at w2 1, byte_at w3 1,
      byte_at w0 2, byte_at w1 2, byte_at w2 2, byte_at w3 2,
      byte_at w0 3, byte_at w1 3, byte_at w2 3, byte_at w3 3]"
  by (simp add: unpack_def)


lemma unpack_pack:
  assumes "length b = 16" and "length dst = 16"
  shows "unpack dst (pack (replicate 4 0) b) = b"
proof -
  obtain b0 b1 b2 b3 b4 b5 b6 b7 b8 b9 b10 b11 b12 b13 b14 b15 where
    b: "b = [b0, b1, b2, b3, b4, b5, b6, b7, b8, b9, b10, b11, b12, b13, b14, b15]"
    using length16_cases [OF assms(1)] by blast
  obtain d0 d1 d2 d3 d4 d5 d6 d7 d8 d9 d10 d11 d12 d13 d14 d15 where
    d: "dst = [d0, d1, d2, d3, d4, d5, d6, d7, d8, d9, d10, d11, d12, d13, d14, d15]"
    using length16_cases [OF assms(2)] by blast
  show ?thesis
    unfolding b d replicate4 pack_words unpack_words by simp
qed

lemma pack_unpack:
  assumes "length s = 4" and "length dst = 16"
  shows "pack (replicate 4 0) (unpack dst s) = s"
proof -
  obtain w0 w1 w2 w3 where s: "s = [w0, w1, w2, w3]"
    using length4_cases [OF assms(1)] by blast
  obtain d0 d1 d2 d3 d4 d5 d6 d7 d8 d9 d10 d11 d12 d13 d14 d15 where
    d: "dst = [d0, d1, d2, d3, d4, d5, d6, d7, d8, d9, d10, d11, d12, d13, d14, d15]"
    using length16_cases [OF assms(2)] by blast
  show ?thesis
    unfolding s d replicate4 unpack_words pack_words by (simp add: word_of_bytes_byte_at)
qed

lemma reslice_16:
  assumes "16 \<le> length (backing s)"
  shows "reslice s 0 16 = Inr \<lparr>vis = take 16 (backing s), spare = drop 16 (backing s)\<rparr>"
  using assms by (simp add: reslice_def)

lemma reslice_16_short:
  assumes "length (backing s) < 16"
  shows "reslice s 0 16 = Inl SliceBoundsOutOfRange"
  using assms by (simp add: reslice_def)

lemma store_front_lengths:
  assumes "length xs \<le> length (backing s)"
  shows "length (vis (store_front s xs)) = length (vis s)"
    and "length (spare (store_front s xs)) = length (spare s)"
  using assms by (simp_all add: store_front_def backing_def)

lemma store_front_full:
  assumes "length xs = length (vis s)"
  shows "store_front s xs = \<lparr>vis = xs, spare = spare s\<rparr>"
  using assms by (simp add: store_front_def backing_def)

lemma Encrypt_short:
  assumes "length (backing src) < 16"
  shows "Encrypt a dst src = Inl SliceBoundsOutOfRange"
    and "Decrypt a dst src = Inl SliceBoundsOutOfRange"
  using assms by (simp_all add: Encrypt_def Decrypt_def reslice_16_short)

lemma Encrypt_prefix:
  assumes "16 \<le> length (backing src)"
  shows "Encrypt a dst src = Encrypt a dst \<lparr>vis = take 16 (backing src), spare = []\<rparr>"
    and "Decrypt a dst src = Decrypt a dst \<lparr>vis = take 16 (backing src), spare = []\<rparr>"
proof -
  have b: "backing \<lparr>vis = take 16 (backing src), spare = []\<rparr> = take 16 (backing src)"
    by (simp add: backing_def)
  have "reslice \<lparr>vis = take 16 (backing src), spare = []\<rparr> 0 16 =
          Inr \<lparr>vis = take 16 (backing src), spare = []\<rparr>"
    using assms by (simp add: reslice_def b)
  then show "Encrypt a dst src = Encrypt a dst \<lparr>vis = take 16 (backing src), spare = []\<rparr>"
    and "Decrypt a dst src = Decrypt a dst \<lparr>vis = take 16 (backing src), spare = []\<rparr>"
    using assms by (simp_all add: Encrypt_def Decrypt_def reslice_16)
qed

lemma Encrypt_block:
  assumes "16 \<le> length (backing src)" and "16 \<le> length (backing dst)"
    and "length (expkey a) = 44"
  shows "\<exists>c. encrypt (pack (replicate 4 0) (take 16 (backing src))) (expkey a) = Inr c \<and>
             length c = 4 \<and>
             Encrypt a dst src = Inr (store_front dst (unpack (take 16 (backing dst)) c))"
proof -
  obtain c where
    "encrypt (pack (replicate 4 0) (take 16 (backing src))) (expkey a) = Inr c" "length c = 4"
    using encrypt_decrypt [of "pack (replicate 4 0) (take 16 (backing src))" "expkey a"] assms(3)
    by auto
  then show ?thesis
    using assms(1,2) by (simp add: Encrypt_def reslice_16)
qed

lemma Decrypt_block:
  assumes "16 \<le> length (backing src)" and "16 \<le> length (backing dst)"
    and "length (expkey a) = 44"
  shows "\<exists>p. decrypt (pack (replicate 4 0) (take 16 (backing src))) (expkey a) = Inr p \<and>
             length p = 4 \<and>
             Decrypt a dst src = Inr (store_front dst (unpack (take 16 (backing dst)) p))"
proof -
  obtain p where
    "decrypt (pack (replicate 4 0) (take 16 (backing src))) (expkey a) = Inr p" "length p = 4"
    using decrypt_total [of "pack (replicate 4 0) (take 16 (backing src))" "expkey a"] assms(3)
    by auto
  then show ?thesis
    using assms(1,2) by (simp add: Decrypt_def reslice_16)
qed

lemma Decrypt_Encrypt:
  assumes "length b = 16" and "length (vis dst) = 16" and "length (vis dst') = 16"
    and "length (expkey a) = 44"
  shows "\<exists>ct. Encrypt a dst \<lparr>vis = b, spare = sp\<rparr> = Inr ct \<and> length (vis ct) = 16 \<and>
              spare ct = spare dst \<and>
              Decrypt a dst' ct = Inr \<lparr>vis = b, spare = spare dst'\<rparr>"
proof -
  let ?s = "pack (replicate 4 0) b"
  let ?ct = "\<lparr>vis = unpack (vis dst) c, spare = spare dst\<rparr>"
  obtain c where c: "encrypt ?s (expkey a) = Inr c" "length c = 4" "decrypt c (expkey a) = Inr ?s"
    using encrypt_decrypt [of ?s "expkey a"] assms(4) by auto
  have enc: "Encrypt a dst \<lparr>vis = b, spare = sp\<rparr> =
               Inr \<lparr>vis = unpack (vis dst) c, spare = spare dst\<rparr>"
    using c(1) assms(1,2)
    by (simp add: Encrypt_def reslice_16 backing_def store_front_full)
  have "pack (replicate 4 0) (unpack (vis dst) c) = c"
    by (rule pack_unpack [OF c(2) assms(2)])
  then have "Decrypt a dst' \<lparr>vis = unpack (vis dst) c, spare = spare dst\<rparr> =
               Inr \<lparr>vis = unpack (vis dst') ?s, spare = spare dst'\<rparr>"
    using c(3) assms(2,3)
    by (simp add: Decrypt_def reslice_16 backing_def store_front_full)
  then show ?thesis
    using enc assms(1,2,3) by (simp add: unpack_pack)
qed

lemma NewCipher_total:
  assumes "16 \<le> length key"
  shows "\<exists>a. NewCipher key = Inr a \<and> length (expkey a) = 44"
proof -
  obtain ek where "keyExpansion key = Inr ek" "length ek = 44"
    using keyExpansion_total [OF assms] by blast
  then show ?thesis
    by (simp add: NewCipher_def)
qed

text \<open>
  Claim C1. For every 16-byte key \<open>k\<close> and every 16-byte block \<open>b\<close>, decrypting the
  encryption of \<open>b\<close> under \<open>k\<close> returns \<open>b\<close>: with the expanded key of \<open>k\<close>, \<open>decrypt\<close>
  after \<open>encrypt\<close> is the identity on a state of four words, and \<open>Decrypt\<close> after
  \<open>Encrypt\<close> of the cipher made by \<open>NewCipher\<close> is the identity on the block (the
  destination buffers being 16 bytes long, whatever the spare capacity of the buffers).
\<close>

theorem decrypt_encrypt_round_trip:
  assumes "length k = 16" and "length b = 16" and "length s = 4"
    and "length (vis dst) = 16" and "length (vis dst') = 16"
  shows "bindp (keyExpansion k) (\<lambda>ek. bindp (encrypt s ek) (\<lambda>c. decrypt c ek)) = Inr s \<and>
         bindp (keyExpansion k)
           (\<lambda>ek. bindp (encrypt (pack (replicate 4 0) b) ek) (\<lambda>c. decrypt c ek)) =
           Inr (pack (replicate 4 0) b) \<and>
         bindp (NewCipher k)
           (\<lambda>a. bindp (Encrypt a dst \<lparr>vis = b, spare = sp\<rparr>) (\<lambda>ct. Decrypt a dst' ct)) =
           Inr \<lparr>vis = b, spare = spare dst'\<rparr>"
proof -
  obtain ek where ek: "keyExpansion k = Inr ek" "length ek = 44"
    using keyExpansion_total [of k] assms(1) by auto
  obtain c where "encrypt s ek = Inr c" "decrypt c ek = Inr s"
    using encrypt_decrypt [OF assms(3) ek(2)] by blast
  then have one: "bindp (keyExpansion k) (\<lambda>ek. bindp (encrypt s ek) (\<lambda>c. decrypt c ek)) = Inr s"
    by (simp add: ek(1))
  let ?p = "pack (replicate 4 0) b"
  obtain c' where "encrypt ?p ek = Inr c'" "decrypt c' ek = Inr ?p"
    using encrypt_decrypt [of ?p ek] ek(2) by auto
  then have two: "bindp (keyExpansion k) (\<lambda>ek. bindp (encrypt ?p ek) (\<lambda>c. decrypt c ek)) = Inr ?p"
    by (simp add: ek(1))
  obtain ct where "Encrypt \<lparr>expkey = ek\<rparr> dst \<lparr>vis = b, spare = sp\<rparr> = Inr ct"
    "Decrypt \<lparr>expkey = ek\<rparr> dst' ct = Inr \<lparr>vis = b, spare = spare dst'\<rparr>"
    using Decrypt_Encrypt [of b dst dst' "\<lparr>expkey = ek\<rparr>" sp] assms(2,4,5) ek(2) by auto
  then have three:
    "bindp (NewCipher k)
       (\<lambda>a. bindp (Encrypt a dst \<lparr>vis = b, spare = sp\<rparr>) (\<lambda>ct. Decrypt a dst' ct)) =
       Inr \<lparr>vis = b, spare = spare dst'\<rparr>"
    by (simp add: NewCipher_def ek(1))
  show ?thesis
    using one two three by blast
qed

text \<open>The theorem at the key and the block of the example of FIPS 197, appendix B, with
  destination buffers of 16 zero bytes and no spare capacity anywhere.\<close>

theorem decrypt_encrypt_round_trip_witness:
  "length [0x2b, 0x7e, 0x15, 0x16, 0x28, 0xae, 0xd2, 0xa6,
           0xab, 0xf7, 0x15, 0x88, 0x09, 0xcf, 0x4f, 0x3c :: byte] = 16 \<and>
   length [0x32, 0x43, 0xf6, 0xa8, 0x88, 0x5a, 0x30, 0x8d,
           0x31, 0x31, 0x98, 0xa2, 0xe0, 0x37, 0x07, 0x34 :: byte] = 16 \<and>
   bindp (NewCipher [0x2b, 0x7e, 0x15, 0x16, 0x28, 0xae, 0xd2, 0xa6,
                     0xab, 0xf7, 0x15, 0x88, 0x09, 0xcf, 0x4f, 0x3c])
     (\<lambda>a. bindp (Encrypt a \<lparr>vis = replicate 16 0, spare = []\<rparr>
                   \<lparr>vis = [0x32, 0x43, 0xf6, 0xa8, 0x88, 0x5a, 0x30, 0x8d,
                           0x31, 0x31, 0x98, 0xa2, 0xe0, 0x37, 0x07, 0x34], spare = []\<rparr>)
            (\<lambda>ct. Decrypt a \<lparr>vis = replicate 16 0, spare = []\<rparr> ct)) =
     Inr \<lparr>vis = [0x32, 0x43, 0xf6, 0xa8, 0x88, 0x5a, 0x30, 0x8d,
                 0x31, 0x31, 0x98, 0xa2, 0xe0, 0x37, 0x07, 0x34], spare = []\<rparr>"
proof -
  let ?k = "[0x2b, 0x7e, 0x15, 0x16, 0x28, 0xae, 0xd2, 0xa6,
             0xab, 0xf7, 0x15, 0x88, 0x09, 0xcf, 0x4f, 0x3c :: byte]"
  let ?b = "[0x32, 0x43, 0xf6, 0xa8, 0x88, 0x5a, 0x30, 0x8d,
             0x31, 0x31, 0x98, 0xa2, 0xe0, 0x37, 0x07, 0x34 :: byte]"
  let ?d = "\<lparr>vis = replicate 16 (0 :: byte), spare = []\<rparr>"
  have k: "length ?k = 16" and b: "length ?b = 16"
    and s: "length (replicate 4 (0 :: uint32)) = 4"
    and d: "length (vis ?d) = 16"
    by simp_all
  have "spare ?d = []"
    by simp
  with decrypt_encrypt_round_trip [OF k b s d d, of "[]"] k b show ?thesis
    by metis
qed

text \<open>\<open>Encrypt\<close> and \<open>Decrypt\<close> of a cipher made from a 16-byte key accept an input of
  17 bytes.\<close>

theorem block_length_counterexample:
  "\<not> isl (Encrypt (projr (NewCipher (replicate 16 0))) \<lparr>vis = replicate 16 0, spare = []\<rparr>
            \<lparr>vis = replicate 17 0, spare = []\<rparr>) \<and>
   \<not> isl (Decrypt (projr (NewCipher (replicate 16 0))) \<lparr>vis = replicate 16 0, spare = []\<rparr>
            \<lparr>vis = replicate 17 0, spare = []\<rparr>)"
proof -
  let ?d = "\<lparr>vis = replicate 16 (0 :: byte), spare = []\<rparr>"
  let ?s = "\<lparr>vis = replicate 17 (0 :: byte), spare = []\<rparr>"
  obtain a where a: "NewCipher (replicate 16 0) = Inr a" "length (expkey a) = 44"
    using NewCipher_total [of "replicate 16 0"] by auto
  have l: "16 \<le> length (backing ?s)" "16 \<le> length (backing ?d)"
    by (simp_all add: backing_def)
  obtain c where "Encrypt a ?d ?s = Inr c"
    using Encrypt_block [OF l a(2)] by blast
  moreover obtain p where "Decrypt a ?d ?s = Inr p"
    using Decrypt_block [OF l a(2)] by blast
  ultimately show ?thesis
    by (simp add: a(1))
qed

text \<open>
  Claim C6, as amended. Single-block \<open>Encrypt\<close> and \<open>Decrypt\<close> have no error result. The
  slice expression \<open>src[0:BlockSize]\<close> is bounded by the capacity of the input buffer: an
  input buffer whose capacity is below 16 bytes makes it panic (slice bounds out of range);
  an input buffer with capacity for 16 bytes is accepted, whether its length is above 16,
  16, or below 16 with spare capacity, and only the first 16 bytes of its backing array
  are processed, the rest being ignored; with a destination that has capacity for 16 bytes
  and an expanded key of 44 words the call then succeeds and leaves the length and the
  capacity of the destination unchanged.
\<close>

theorem block_length_handling:
  "(length (backing src) < 16 \<longrightarrow>
      Encrypt a dst src = Inl SliceBoundsOutOfRange \<and>
      Decrypt a dst src = Inl SliceBoundsOutOfRange) \<and>
   (16 \<le> length (backing src) \<longrightarrow>
      Encrypt a dst src = Encrypt a dst \<lparr>vis = take 16 (backing src), spare = []\<rparr> \<and>
      Decrypt a dst src = Decrypt a dst \<lparr>vis = take 16 (backing src), spare = []\<rparr>) \<and>
   (16 \<le> length (backing src) \<and> 16 \<le> length (backing dst) \<and> length (expkey a) = 44 \<longrightarrow>
      (\<exists>c. Encrypt a dst src = Inr c \<and> length (vis c) = length (vis dst) \<and>
            length (spare c) = length (spare dst)) \<and>
      (\<exists>p. Decrypt a dst src = Inr p \<and> length (vis p) = length (vis dst) \<and>
            length (spare p) = length (spare dst)))"
proof (intro conjI impI)
  assume "length (backing src) < 16"
  then show "Encrypt a dst src = Inl SliceBoundsOutOfRange"
    "Decrypt a dst src = Inl SliceBoundsOutOfRange"
    by (simp_all add: Encrypt_short)
next
  assume "16 \<le> length (backing src)"
  then show "Encrypt a dst src = Encrypt a dst \<lparr>vis = take 16 (backing src), spare = []\<rparr>"
    "Decrypt a dst src = Decrypt a dst \<lparr>vis = take 16 (backing src), spare = []\<rparr>"
    using Encrypt_prefix by blast+
next
  assume h: "16 \<le> length (backing src) \<and> 16 \<le> length (backing dst) \<and>
             length (expkey a) = 44"
  obtain c where c: "length c = 4"
    "Encrypt a dst src = Inr (store_front dst (unpack (take 16 (backing dst)) c))"
    using Encrypt_block [of src dst a] h by auto
  have "length (unpack (take 16 (backing dst)) c) \<le> length (backing dst)"
    using h by simp
  then show "\<exists>c. Encrypt a dst src = Inr c \<and> length (vis c) = length (vis dst) \<and>
                 length (spare c) = length (spare dst)"
    using c(2) store_front_lengths by blast
  obtain p where p: "length p = 4"
    "Decrypt a dst src = Inr (store_front dst (unpack (take 16 (backing dst)) p))"
    using Decrypt_block [of src dst a] h by auto
  have "length (unpack (take 16 (backing dst)) p) \<le> length (backing dst)"
    using h by simp
  then show "\<exists>p. Decrypt a dst src = Inr p \<and> length (vis p) = length (vis dst) \<and>
                 length (spare p) = length (spare dst)"
    using p(2) store_front_lengths by blast
qed

text \<open>The theorem at an input of 15 bytes without spare capacity, at an input of 15 bytes
  with capacity 16, and at an input of 17 bytes.\<close>

theorem block_length_handling_witness:
  "Encrypt \<lparr>expkey = replicate 44 0\<rparr> \<lparr>vis = replicate 16 0, spare = []\<rparr>
     \<lparr>vis = [0, 1, 2, 3, 4, 5, 6, 7, 8, 9, 10, 11, 12, 13, 14], spare = []\<rparr> =
     Inl SliceBoundsOutOfRange \<and>
   Encrypt \<lparr>expkey = replicate 44 0\<rparr> \<lparr>vis = replicate 16 0, spare = []\<rparr>
     \<lparr>vis = [0, 1, 2, 3, 4, 5, 6, 7, 8, 9, 10, 11, 12, 13, 14], spare = [15]\<rparr> =
     Encrypt \<lparr>expkey = replicate 44 0\<rparr> \<lparr>vis = replicate 16 0, spare = []\<rparr>
       \<lparr>vis = [0, 1, 2, 3, 4, 5, 6, 7, 8, 9, 10, 11, 12, 13, 14, 15], spare = []\<rparr> \<and>
   (\<exists>c. Encrypt \<lparr>expkey = replicate 44 0\<rparr> \<lparr>vis = replicate 16 0, spare = []\<rparr>
          \<lparr>vis = [0, 1, 2, 3, 4, 5, 6, 7, 8, 9, 10, 11, 12, 13, 14], spare = [15]\<rparr> = Inr c \<and>
        length (vis c) = 16) \<and>
   (\<exists>c. Encrypt \<lparr>expkey = replicate 44 0\<rparr> \<lparr>vis = replicate 16 0, spare = []\<rparr>
          \<lparr>vis = replicate 17 0, spare = []\<rparr> = Inr c \<and>
        length (vis c) = 16)"
proof -
  let ?a = "\<lparr>expkey = replicate 44 (0 :: uint32)\<rparr>"
  let ?d = "\<lparr>vis = replicate 16 (0 :: byte), spare = []\<rparr>"
  let ?s15 = "\<lparr>vis = [0, 1, 2, 3, 4, 5, 6, 7, 8, 9, 10, 11, 12, 13, 14 :: byte], spare = []\<rparr>"
  let ?s16 = "\<lparr>vis = [0, 1, 2, 3, 4, 5, 6, 7, 8, 9, 10, 11, 12, 13, 14 :: byte], spare = [15]\<rparr>"
  let ?s17 = "\<lparr>vis = replicate 17 (0 :: byte), spare = []\<rparr>"
  have short: "length (backing ?s15) < 16"
    and cap: "16 \<le> length (backing ?s16)" "16 \<le> length (backing ?s17)"
      "16 \<le> length (backing ?d)" "length (expkey ?a) = 44"
    and first: "take 16 (backing ?s16) = [0, 1, 2, 3, 4, 5, 6, 7, 8, 9, 10, 11, 12, 13, 14, 15]"
    and len: "length (vis ?d) = 16"
    by (simp_all add: backing_def)
  have one: "Encrypt ?a ?d ?s15 = Inl SliceBoundsOutOfRange"
    using block_length_handling [of ?s15 ?a ?d] short by blast
  have two: "Encrypt ?a ?d ?s16 = Encrypt ?a ?d \<lparr>vis = take 16 (backing ?s16), spare = []\<rparr>"
    using block_length_handling [of ?s16 ?a ?d] cap by blast
  have three: "\<exists>c. Encrypt ?a ?d ?s16 = Inr c \<and> length (vis c) = length (vis ?d)"
    using block_length_handling [of ?s16 ?a ?d] cap by blast
  have four: "\<exists>c. Encrypt ?a ?d ?s17 = Inr c \<and> length (vis c) = length (vis ?d)"
    using block_length_handling [of ?s17 ?a ?d] cap by blast
  show ?thesis
    using one two three four unfolding first len by blast
qed

section \<open>The two implementations compared\<close>

lemma byte_at_ucast [simp]: "byte_at (ucast (b :: byte)) 3 = b"
  by (simp add: byte_at_def)

lemma matasano_addRoundKey_words:
  "matasano_addRoundKey [w0, w1, w2, w3] [k0, k1, k2, k3] =
     addRoundKey [w0, w1, w2, w3] (transposed [k0, k1, k2, k3])"
  by (simp add: matasano_addRoundKey_def matasano_addRoundKey_step_def modify_def Let_def
      transposed_def addRoundKey_words byte_extract word_of_bytes_def)

lemma length_transposed [simp]: "length (transposed k) = 4"
  by (simp add: transposed_def)

lemma matasano_addRoundKey_transposed:
  assumes "length s = 4" and "length k = 4"
  shows "matasano_addRoundKey s k = addRoundKey s (transposed k)"
proof -
  obtain w0 w1 w2 w3 where s: "s = [w0, w1, w2, w3]"
    using length4_cases [OF assms(1)] by blast
  obtain k0 k1 k2 k3 where k: "k = [k0, k1, k2, k3]"
    using length4_cases [OF assms(2)] by blast
  show ?thesis
    unfolding s k by (rule matasano_addRoundKey_words)
qed

lemma subslice_round_key:
  assumes "4 * g + 4 \<le> length e"
  shows "subslice e (4 * int g) (4 * int g + 4) = Inr (round_key e g)"
  using assms by (simp add: subslice_eq round_key_def nat_mult_distrib)


lemma encrypt_loops_agree:
  assumes "\<forall>g<11. round_key ek g = transposed (round_key w g)"
    and "length ek = 44" and "length w = 44" and "length s = 4" and "g0 + n \<le> 11"
  shows "matasano_encrypt_loop n s (4 * int g0) w = encrypt_loop n s (4 * int g0) ek"
  using assms(4,5)
proof (induction n arbitrary: s g0)
  case 0
  show ?case by simp
next
  case (Suc n)
  obtain t where t: "shiftRows (subBytes s) = Inr t" "length t = 4"
    using shiftRows_inverse [of "subBytes s"] Suc.prems(1) by auto
  obtain m where m: "mixColumns t = Inr m" "length m = 4"
    using mixColumns_inverse [OF t(2)] by blast
  have g0: "g0 < 11" "4 * g0 + 4 \<le> length w" "4 * g0 + 4 \<le> length ek"
    using Suc.prems(2) assms(2,3) by simp_all
  have kw: "subslice w (4 * int g0) (4 * int g0 + 4) = Inr (round_key w g0)"
    and ke: "subslice ek (4 * int g0) (4 * int g0 + 4) = Inr (transposed (round_key w g0))"
    using subslice_round_key [OF g0(2)] subslice_round_key [OF g0(3)] assms(1) g0(1)
    by simp_all
  have ark: "matasano_addRoundKey m (round_key w g0) = addRoundKey m (transposed (round_key w g0))"
    using m(2) g0(2) by (simp add: matasano_addRoundKey_transposed length_round_key)
  obtain s1 where s1: "addRoundKey m (transposed (round_key w g0)) = Inr s1" "length s1 = 4"
    using addRoundKey_inverse [of m "transposed (round_key w g0)"] m(2) by auto
  have next_index: "4 * int g0 + 4 = 4 * int (Suc g0)"
    by simp
  have "matasano_encrypt_loop n s1 (4 * int (Suc g0)) w = encrypt_loop n s1 (4 * int (Suc g0)) ek"
    using Suc.IH [OF s1(2), of "Suc g0"] Suc.prems(2) by simp
  then show ?case
    using t m kw ke ark s1 by (simp add: next_index del: of_nat_Suc)
qed

lemma decrypt_loops_agree:
  assumes "\<forall>g<11. round_key ek g = transposed (round_key w g)"
    and "length ek = 44" and "length w = 44" and "length s = 4" and "n \<le> g0" and "g0 < 11"
  shows "matasano_decrypt_loop n s (4 * int g0) w = decrypt_loop n s (4 * int g0) ek"
  using assms(4,5,6)
proof (induction n arbitrary: s g0)
  case 0
  show ?case by simp
next
  case (Suc n)
  obtain t where t: "invShiftRows s = Inr t" "length t = 4"
    using invShiftRows_total [OF Suc.prems(1)] by blast
  have g0: "4 * g0 + 4 \<le> length w" "4 * g0 + 4 \<le> length ek"
    using Suc.prems(3) assms(2,3) by simp_all
  have kw: "subslice w (4 * int g0) (4 * int g0 + 4) = Inr (round_key w g0)"
    and ke: "subslice ek (4 * int g0) (4 * int g0 + 4) = Inr (transposed (round_key w g0))"
    using subslice_round_key [OF g0(1)] subslice_round_key [OF g0(2)] assms(1) Suc.prems(3)
    by simp_all
  have ark: "matasano_addRoundKey (invSubBytes t) (round_key w g0) =
               addRoundKey (invSubBytes t) (transposed (round_key w g0))"
    using t(2) g0(1) by (simp add: matasano_addRoundKey_transposed length_round_key)
  obtain s1 where s1: "addRoundKey (invSubBytes t) (transposed (round_key w g0)) = Inr s1"
    "length s1 = 4"
    using addRoundKey_inverse [of "invSubBytes t" "transposed (round_key w g0)"] t(2) by auto
  obtain s2 where s2: "invMixColumns s1 = Inr s2" "length s2 = 4"
    using invMixColumns_total [OF s1(2)] by blast
  obtain g1 where g1: "g0 = Suc g1"
    using Suc.prems(2) by (cases g0) simp_all
  have next_index: "4 * int g0 - 4 = 4 * int g1"
    by (simp add: g1)
  have "matasano_decrypt_loop n s2 (4 * int g1) w = decrypt_loop n s2 (4 * int g1) ek"
    using Suc.IH [OF s2(2), of g1] Suc.prems(2,3) g1 by simp
  then show ?case
    using t kw ke ark s1 s2 by (simp add: next_index)
qed


lemma pipelines_agree:
  assumes rel: "\<forall>g<11. round_key ek g = transposed (round_key w g)"
    and "length ek = 44" and "length w = 44" and "length s = 4"
  shows "matasano_encrypt s w = encrypt s ek" and "matasano_decrypt s w = decrypt s ek"
proof -
  have key: "subslice w (4 * int g) (4 * int g + 4) = Inr (round_key w g)"
    "subslice ek (4 * int g) (4 * int g + 4) = Inr (transposed (round_key w g))"
    "length (round_key w g) = 4" if "g < 11" for g
    using that assms(2,3) rel by (simp_all add: subslice_round_key length_round_key)
  have ark: "matasano_addRoundKey x (round_key w g) = addRoundKey x (transposed (round_key w g))"
    if "length x = 4" and "g < 11" for x g
    using that key(3) by (simp add: matasano_addRoundKey_transposed)
  show "matasano_encrypt s w = encrypt s ek"
  proof -
    obtain s1 where s1: "addRoundKey s (transposed (round_key w 0)) = Inr s1" "length s1 = 4"
      using addRoundKey_inverse [of s "transposed (round_key w 0)"] assms(4) by auto
    obtain s2 where s2: "encrypt_loop 9 s1 4 ek = Inr (s2, 40)" "length s2 = 4"
      using loops_inverse [of s1 4 9 ek] s1(2) assms(2) by auto
    have "matasano_encrypt_loop 9 s1 (4 * int 1) w = encrypt_loop 9 s1 (4 * int 1) ek"
      by (rule encrypt_loops_agree [OF rel assms(2,3) s1(2)]) simp
    then have m2: "matasano_encrypt_loop 9 s1 4 w = Inr (s2, 40)"
      using s2(1) by simp
    obtain s3 where s3: "shiftRows (subBytes s2) = Inr s3" "length s3 = 4"
      using shiftRows_inverse [of "subBytes s2"] s2(2) by auto
    show ?thesis
      using key [of 0] key [of 10] ark [OF assms(4), of 0] ark [OF s3(2), of 10] s1 s2 m2 s3
        assms(2,3)
      by (simp add: matasano_encrypt_def encrypt_def)
  qed
  show "matasano_decrypt s w = decrypt s ek"
  proof -
    obtain s1 where s1: "addRoundKey s (transposed (round_key w 10)) = Inr s1" "length s1 = 4"
      using addRoundKey_inverse [of s "transposed (round_key w 10)"] assms(4) by auto
    obtain s2 where s2: "decrypt_loop 9 s1 36 ek = Inr (s2, 36 - 4 * int 9)" "length s2 = 4"
      using decrypt_loop_total [of s1 9 36 ek] s1(2) assms(2) by auto
    have "matasano_decrypt_loop 9 s1 (4 * int 9) w = decrypt_loop 9 s1 (4 * int 9) ek"
      by (rule decrypt_loops_agree [OF rel assms(2,3) s1(2)]) simp_all
    then have m2: "matasano_decrypt_loop 9 s1 36 w = Inr (s2, 0)"
      using s2(1) by simp
    obtain s3 where s3: "invShiftRows s2 = Inr s3" "length s3 = 4"
      using invShiftRows_total [OF s2(2)] by blast
    have l: "length (invSubBytes s3) = 4"
      using s3(2) by simp
    show ?thesis
      using key [of 0] key [of 10] ark [OF assms(4), of 10] ark [OF l, of 0] s1 s2 m2 s3
        assms(2,3)
      by (simp add: matasano_decrypt_def decrypt_def)
  qed
qed

text \<open>
  Claim C8. The two AES implementations agree: for every 16-byte key and every state of
  four words, package \<open>matasano\<close> (\<open>keyExpansion\<close> without the transpose, \<open>addRoundKey\<close>
  gathering the columns of the round key) and package \<open>aes\<close> (\<open>keyExpansion\<close> transposing
  every group of four words, \<open>addRoundKey\<close> a plain XOR) give the same result of
  encryption and the same result of decryption, and that result is a state, not a panic.
\<close>

theorem implementations_agree:
  assumes "length key = 16" and "length s = 4"
  shows "bindp (matasano_keyExpansion key) (matasano_encrypt s) =
           bindp (keyExpansion key) (encrypt s) \<and>
         bindp (matasano_keyExpansion key) (matasano_decrypt s) =
           bindp (keyExpansion key) (decrypt s) \<and>
         \<not> isl (bindp (keyExpansion key) (encrypt s)) \<and>
         \<not> isl (bindp (keyExpansion key) (decrypt s))"
proof -
  obtain w ek where k: "matasano_keyExpansion key = Inr w" "keyExpansion key = Inr ek"
    "key_schedule_spec key w" "length ek = 44"
    "\<forall>g<11. round_key ek g = transposed (round_key w g)"
    using keyExpansion_expanded [of key] assms(1) by auto
  have w: "length w = 44"
    using k(3) by (simp add: key_schedule_spec_def)
  obtain c where c: "encrypt s ek = Inr c"
    using encrypt_decrypt [OF assms(2) k(4)] by blast
  obtain p where p: "decrypt s ek = Inr p"
    using decrypt_total [OF assms(2) k(4)] by blast
  show ?thesis
    using pipelines_agree [OF k(5) k(4) w assms(2)] c p by (simp add: k(1,2))
qed

text \<open>The theorem at the key and the block of the example of FIPS 197, appendix B.\<close>

theorem implementations_agree_witness:
  "length [0x2b, 0x7e, 0x15, 0x16, 0x28, 0xae, 0xd2, 0xa6,
           0xab, 0xf7, 0x15, 0x88, 0x09, 0xcf, 0x4f, 0x3c :: byte] = 16 \<and>
   length [0x328831e0, 0x435a3137, 0xf6309807, 0xa88da234 :: uint32] = 4 \<and>
   bindp (matasano_keyExpansion [0x2b, 0x7e, 0x15, 0x16, 0x28, 0xae, 0xd2, 0xa6,
                                 0xab, 0xf7, 0x15, 0x88, 0x09, 0xcf, 0x4f, 0x3c])
     (matasano_encrypt [0x328831e0, 0x435a3137, 0xf6309807, 0xa88da234]) =
     bindp (keyExpansion [0x2b, 0x7e, 0x15, 0x16, 0x28, 0xae, 0xd2, 0xa6,
                          0xab, 0xf7, 0x15, 0x88, 0x09, 0xcf, 0x4f, 0x3c])
       (encrypt [0x328831e0, 0x435a3137, 0xf6309807, 0xa88da234]) \<and>
   bindp (matasano_keyExpansion [0x2b, 0x7e, 0x15, 0x16, 0x28, 0xae, 0xd2, 0xa6,
                                 0xab, 0xf7, 0x15, 0x88, 0x09, 0xcf, 0x4f, 0x3c])
     (matasano_decrypt [0x328831e0, 0x435a3137, 0xf6309807, 0xa88da234]) =
     bindp (keyExpansion [0x2b, 0x7e, 0x15, 0x16, 0x28, 0xae, 0xd2, 0xa6,
                          0xab, 0xf7, 0x15, 0x88, 0x09, 0xcf, 0x4f, 0x3c])
       (decrypt [0x328831e0, 0x435a3137, 0xf6309807, 0xa88da234])"
proof -
  let ?k = "[0x2b, 0x7e, 0x15, 0x16, 0x28, 0xae, 0xd2, 0xa6,
             0xab, 0xf7, 0x15, 0x88, 0x09, 0xcf, 0x4f, 0x3c :: byte]"
  let ?s = "[0x328831e0, 0x435a3137, 0xf6309807, 0xa88da234 :: uint32]"
  have k: "length ?k = 16" and s: "length ?s = 4"
    by simp_all
  from implementations_agree [OF k s] k s show ?thesis
    by blast
qed

section \<open>The oracle\<close>

lemma equal_pairs_nonneg: "0 \<le> equal_pairs xs"
  by (induction xs) simp_all

lemma equal_pairs_pos_iff: "0 < equal_pairs xs \<longleftrightarrow> \<not> distinct xs"
proof (induction xs)
  case Nil
  show ?case by simp
next
  case (Cons x xs)
  have "0 < int (length (filter (\<lambda>y. y = x) xs)) \<longleftrightarrow> x \<in> set xs"
    by (auto simp: filter_empty_conv)
  then show ?case
    using Cons.IH equal_pairs_nonneg [of xs] by auto
qed

lemma not_distinct_iff:
  "\<not> distinct xs \<longleftrightarrow> (\<exists>j k. j < k \<and> k < length xs \<and> xs ! j = xs ! k)"
proof
  assume "\<not> distinct xs"
  then obtain i j where ij: "i < length xs" "j < length xs" "i \<noteq> j" "xs ! i = xs ! j"
    by (auto simp: distinct_conv_nth)
  show "\<exists>j k. j < k \<and> k < length xs \<and> xs ! j = xs ! k"
  proof (cases "i < j")
    case True
    with ij show ?thesis by blast
  next
    case False
    with ij have "j < i" by simp
    with ij show ?thesis by metis
  qed
next
  assume "\<exists>j k. j < k \<and> k < length xs \<and> xs ! j = xs ! k"
  then obtain j k where jk: "j < k" "k < length xs" "xs ! j = xs ! k"
    by blast
  then have "j < length xs" and "j \<noteq> k"
    by simp_all
  with jk show "\<not> distinct xs"
    unfolding distinct_conv_nth by blast
qed

lemma isAESECB_iff:
  "isAESECB b \<longleftrightarrow>
     (\<exists>j k. j < k \<and> k < length (blocks16 b) \<and> blocks16 b ! j = blocks16 b ! k)"
  by (simp add: isAESECB_def similarBlocks_def equal_pairs_pos_iff not_distinct_iff)

lemma fill_guesses:
  assumes "m \<le> n"
  shows "foldl (\<lambda>g i. g[i := f i]) (replicate n z) [0..<m] = map f [0..<m] @ replicate (n - m) z"
  using assms
proof (induction m)
  case 0
  show ?case by simp
next
  case (Suc m)
  have r: "replicate (n - m) z = z # replicate (n - Suc m) z"
    using Suc.prems by (cases "n - m") simp_all
  have "foldl (\<lambda>g i. g[i := f i]) (replicate n z) [0..<Suc m] =
          (map f [0..<m] @ replicate (n - m) z)[m := f m]"
    using Suc by simp
  also have "\<dots> = map f [0..<m] @ f m # replicate (n - Suc m) z"
    unfolding r by (simp add: list_update_append)
  finally show ?case
    by simp
qed

lemma OracleAES_map: "OracleAES ciphers = map (\<lambda>c. if isAESECB c then 1 else 0) ciphers"
proof -
  have "OracleAES ciphers =
          map (\<lambda>i. if isAESECB (ciphers ! i) then 1 else 0) [0..<length ciphers]"
    unfolding OracleAES_def
    using fill_guesses [of "length ciphers" "length ciphers"
        "\<lambda>i. if isAESECB (ciphers ! i) then 1 else 0" 0]
    by simp
  also have "\<dots> = map (\<lambda>c. if isAESECB c then 1 else 0) ciphers"
    by (intro nth_equalityI) simp_all
  finally show ?thesis .
qed


text \<open>
  Claim C7. For every list of ciphertext buffers \<open>OracleAES\<close> returns a list of the same
  length whose every entry is 1 (ECB) or 0 (CBC); entry \<open>i\<close> is 1 exactly when
  ciphertext \<open>i\<close>, partitioned into 16-byte blocks, contains two byte-identical blocks.
\<close>

theorem oracle_classification:
  "length (OracleAES ciphers) = length ciphers \<and>
   (\<forall>i \<in> {0..<length ciphers}.
      (OracleAES ciphers ! i = 1 \<or> OracleAES ciphers ! i = 0) \<and>
      (OracleAES ciphers ! i = 1 \<longleftrightarrow>
         (\<exists>j k. j < k \<and> k < length (blocks16 (ciphers ! i)) \<and>
                blocks16 (ciphers ! i) ! j = blocks16 (ciphers ! i) ! k)))"
  by (simp add: OracleAES_map isAESECB_iff)

text \<open>The theorem at a single buffer of 32 equal bytes, which is two equal blocks.\<close>

theorem oracle_classification_witness:
  "length (OracleAES [replicate 32 7]) = length [replicate 32 (7 :: byte)] \<and>
   OracleAES [replicate 32 7] ! 0 = 1"
proof -
  have b: "blocks16 (replicate 32 (7 :: byte)) = [replicate 16 7, replicate 16 7]"
    by (simp add: blocks16.simps [of "replicate 32 7"] blocks16.simps [of "replicate 16 7"]
        blocks16.simps [of "[]"])
  have "\<exists>j k. j < k \<and> k < length (blocks16 ([replicate 32 (7 :: byte)] ! 0)) \<and>
          blocks16 ([replicate 32 7] ! 0) ! j = blocks16 ([replicate 32 7] ! 0) ! k"
    by (rule exI [of _ 0], rule exI [of _ 1]) (simp add: b)
  moreover have "0 \<in> {0..<length [replicate 32 (7 :: byte)]}"
    by simp
  ultimately show ?thesis
    using oracle_classification [of "[replicate 32 7]"] by blast
qed

section \<open>The test-vector generator\<close>

lemma length_PadPKCS7: "16 dvd length (PadPKCS7 p 16)"
proof -
  have "(length p + (16 - length p mod 16)) mod 16 = 0"
    by presburger
  then show ?thesis
    by (simp add: PadPKCS7_def dvd_eq_mod_eq_0)
qed

text \<open>
  Claim C9. For every plaintext and every outcome of the randomness source (\<open>rand.Intn(16)\<close>
  returns a value from 0 to 15), \<open>getPlaintext\<close> returns the plaintext with a prefix of
  random bytes in front, whose length is between 5 and 20 inclusive, and with PKCS#7
  padding behind (\<open>n\<close> bytes of value \<open>n\<close>, \<open>1 \<le> n \<le> 16\<close>), so the length of the
  returned buffer is a multiple of 16.
\<close>

theorem getPlaintext_prefix_and_padding:
  assumes "0 \<le> intn" and "intn < 16"
  shows "\<exists>prefix n.
           getPlaintext intn rnd b = Inr (prefix @ b @ replicate n (of_nat n)) \<and>
           prefix = map rnd [0..<nat (intn + 5)] \<and>
           5 \<le> length prefix \<and> length prefix \<le> 20 \<and> 1 \<le> n \<and> n \<le> 16 \<and>
           16 dvd length (prefix @ b @ replicate n (of_nat n :: byte))"
proof -
  define prefix where "prefix = map rnd [0..<nat (intn + 5)]"
  define n where "n = 16 - length (prefix @ b) mod 16"
  have len: "5 \<le> length prefix" "length prefix \<le> 20"
    using assms by (simp_all add: prefix_def)
  have res: "getPlaintext intn rnd b = Inr (PadPKCS7 (prefix @ b) 16)"
    using assms len by (simp add: getPlaintext_def randbytes_def prefix_def)
  have pad: "PadPKCS7 (prefix @ b) 16 = prefix @ b @ replicate n (of_nat n)"
    by (simp add: PadPKCS7_def n_def)
  have n: "1 \<le> n" "n \<le> 16"
    by (simp_all add: n_def)
  have "16 dvd length (prefix @ b @ replicate n (of_nat n :: byte))"
    using length_PadPKCS7 [of "prefix @ b"] by (simp only: pad)
  then show ?thesis
    using res pad len n prefix_def by metis
qed

text \<open>The theorem at the outcome 3, random bytes all zero and the empty plaintext.\<close>

theorem getPlaintext_prefix_and_padding_witness:
  "(0 :: int) \<le> 3 \<and> (3 :: int) < 16 \<and>
   (\<exists>prefix n.
      getPlaintext 3 (\<lambda>i. 0) [] = Inr (prefix @ [] @ replicate n (of_nat n)) \<and>
      prefix = map (\<lambda>i. 0) [0..<nat (3 + 5)] \<and>
      5 \<le> length prefix \<and> length prefix \<le> 20 \<and> 1 \<le> n \<and> n \<le> 16 \<and>
      16 dvd length (prefix @ [] @ replicate n (of_nat n :: byte)))"
proof -
  have a: "(0 :: int) \<le> 3" and b: "(3 :: int) < 16"
    by simp_all
  from getPlaintext_prefix_and_padding [OF a b, of "\<lambda>i. 0" "[]"] a b show ?thesis
    by blast
qed

end
